theory Spec2Isabelle
  imports Main "HOL-Library.Word"
begin

section \<open>The Cool lexer of \<^verbatim>\<open>src/lexer/src/main.c\<close>\<close>

text \<open>
  A shallow embedding of the scanner. The C program reads a file through a 4096-byte
  \<^verbatim>\<open>ReadBuffer\<close>, extracts lexemes with one character of lookahead and prints one
  token after the other; every lexical error calls \<^verbatim>\<open>exit\<close> with its own code.

  Conventions of the embedding:
  \<^item> \<^verbatim>\<open>uint8_t\<close> and \<^verbatim>\<open>char\<close> are both \<open>8 word\<close>. \<^verbatim>\<open>char\<close> is taken to be signed
    (as on x86 with gcc, clang and MSVC), so that the value \<^verbatim>\<open>(char)EOF\<close> is the bit
    pattern \<open>0xFF\<close> and a test \<^verbatim>\<open>c == EOF\<close> on a \<^verbatim>\<open>char\<close> holds exactly for it.
    Signed comparisons of characters go through \<open>sint\<close>.
  \<^item> \<^verbatim>\<open>FILE* fp\<close> is the list of the file's bytes with a position indicator.
  \<^item> A function that takes the \<^verbatim>\<open>ReadBuffer*\<close> returns the buffer next to its result.
  \<^item> \<^verbatim>\<open>exit(code)\<close> is the left injection of a sum; a loop whose termination depends on
    the buffer is a \<^theory_text>\<open>partial_function\<close> into \<open>option\<close>, and \<open>None\<close> is
    "does not return".
  \<^item> The NUL-terminated \<^verbatim>\<open>name_buffer\<close> is the list of the characters written before
    the terminator; \<^verbatim>\<open>current_buffer_pos\<close> is its length.
\<close>

type_synonym byte = "8 word"

subsection \<open>Constants\<close>

definition INPUT_FILE_BLOCK_SIZE :: nat where
  "INPUT_FILE_BLOCK_SIZE = 4096"

definition LITERAL_STRING_MAX_SIZE :: nat where
  "LITERAL_STRING_MAX_SIZE = 1024"

definition GENERAL_NAME_MAX_SIZE :: nat where
  "GENERAL_NAME_MAX_SIZE = 1024"

datatype lexer_error =
    LEXER_ERROR_INCORRECT_USAGE
  | LEXER_ERROR_FILE_IO
  | LEXER_ERROR_IDENTIFIER_NAME_TOO_LONG
  | LEXER_ERROR_STRING_LITERAL_TOO_LONG
  | LEXER_ERROR_WRONG_INTEGER32_FORMAT
  | LEXER_ERROR_UPPERCASE_BOOLEAN_KEYWORD
  | LEXER_ERROR_INVALID_CHARACTER
  | LEXER_ERROR_INVALID_STRING_CHARACTER
  | LEXER_ERROR_NON_ESCAPED_NEWLINE

fun exit_code :: "lexer_error \<Rightarrow> nat" where
  "exit_code LEXER_ERROR_INCORRECT_USAGE = 1"
| "exit_code LEXER_ERROR_FILE_IO = 2"
| "exit_code LEXER_ERROR_IDENTIFIER_NAME_TOO_LONG = 3"
| "exit_code LEXER_ERROR_STRING_LITERAL_TOO_LONG = 4"
| "exit_code LEXER_ERROR_WRONG_INTEGER32_FORMAT = 5"
| "exit_code LEXER_ERROR_UPPERCASE_BOOLEAN_KEYWORD = 6"
| "exit_code LEXER_ERROR_INVALID_CHARACTER = 7"
| "exit_code LEXER_ERROR_INVALID_STRING_CHARACTER = 8"
| "exit_code LEXER_ERROR_NON_ESCAPED_NEWLINE = 9"

text \<open>The characters the scanner names, as their ASCII codes.\<close>

abbreviation c_EOF :: byte where "c_EOF \<equiv> 0xFF"
abbreviation c_newline :: byte where "c_newline \<equiv> 0x0A"
abbreviation c_dquote :: byte where "c_dquote \<equiv> 0x22"
abbreviation c_bslash :: byte where "c_bslash \<equiv> 0x5C"
abbreviation c_lparen :: byte where "c_lparen \<equiv> 0x28"
abbreviation c_rparen :: byte where "c_rparen \<equiv> 0x29"
abbreviation c_star :: byte where "c_star \<equiv> 0x2A"
abbreviation c_minus :: byte where "c_minus \<equiv> 0x2D"
abbreviation c_less :: byte where "c_less \<equiv> 0x3C"
abbreviation c_equal :: byte where "c_equal \<equiv> 0x3D"
abbreviation c_greater :: byte where "c_greater \<equiv> 0x3E"

text \<open>A C string literal as the list of its bytes.\<close>

definition cstr :: "string \<Rightarrow> byte list" where
  "cstr s = map of_char s"

subsection \<open>ReadBuffer\<close>

text \<open>
  \<open>fp_data\<close> and \<open>fp_pos\<close> are the file behind \<^verbatim>\<open>fp\<close> and its position indicator;
  \<^verbatim>\<open>filename\<close> only appears in messages and is left out. The array \<^verbatim>\<open>content\<close>
  is a function of the index; the C array has the indices below
  \<^verbatim>\<open>INPUT_FILE_BLOCK_SIZE\<close>. The three \<^verbatim>\<open>size_t\<close> counters are natural numbers.
\<close>

record ReadBuffer =
  fp_data :: "byte list"
  fp_pos :: nat
  content :: "nat \<Rightarrow> byte"
  current_position :: nat
  total_size :: nat
  current_line :: nat

text \<open>
  \<^verbatim>\<open>buf->total_size = fread(buf->content, 1, INPUT_FILE_BLOCK_SIZE, buf->fp)\<close>: the next
  block of at most 4096 bytes overwrites the start of \<open>content\<close>, the file position
  moves past it, and the count of bytes read is stored.
\<close>

definition fread_content :: "ReadBuffer \<Rightarrow> ReadBuffer" where
  "fread_content buf =
     (let got = take INPUT_FILE_BLOCK_SIZE (drop (fp_pos buf) (fp_data buf))
      in buf\<lparr>content := (\<lambda>i. if i < length got then got ! i else content buf i),
             fp_pos := fp_pos buf + length got,
             total_size := length got\<rparr>)"

definition init_buffer :: "byte list \<Rightarrow> ReadBuffer" where
  "init_buffer in_file =
     fread_content \<lparr>fp_data = in_file, fp_pos = 0,
                    content = (\<lambda>i. 0),
                    current_position = 0, total_size = 0, current_line = 1\<rparr>"

definition next_char :: "ReadBuffer \<Rightarrow> byte \<times> ReadBuffer" where
  "next_char buf =
     (let refill = (current_position buf = total_size buf);
          buf1 = (if refill then (fread_content buf)\<lparr>current_position := 0\<rparr> else buf)
      in if refill \<and> total_size buf1 = 0 then (c_EOF, buf1)
         else
           let c = content buf1 (current_position buf1);
               buf2 = (if c = c_newline
                       then buf1\<lparr>current_line := current_line buf1 + 1\<rparr> else buf1)
           in (c, buf2\<lparr>current_position := current_position buf2 + 1\<rparr>))"

text \<open>
  In \<^verbatim>\<open>next_char_lookup\<close> the byte read by \<^verbatim>\<open>fgetc\<close> is stored in a \<^verbatim>\<open>char\<close> and
  compared with \<^verbatim>\<open>EOF\<close>: at the end of the file, and also when the byte is \<open>0xFF\<close>,
  the function returns before \<^verbatim>\<open>fsetpos\<close>; in the second case the file position
  stays one byte further.
\<close>

definition next_char_lookup :: "ReadBuffer \<Rightarrow> byte \<times> ReadBuffer" where
  "next_char_lookup buf =
     (if current_position buf = total_size buf then
        (if fp_pos buf < length (fp_data buf) then
           (let c = fp_data buf ! fp_pos buf
            in if c = c_EOF then (c_EOF, buf\<lparr>fp_pos := fp_pos buf + 1\<rparr>)
               else (c, buf))
         else (c_EOF, buf))
      else (content buf (current_position buf), buf))"

definition current_char_lookup :: "ReadBuffer \<Rightarrow> byte \<times> ReadBuffer" where
  "current_char_lookup buf =
     (if current_position buf = 0 then (c_EOF, buf)
      else (content buf (current_position buf - 1), buf))"

subsection \<open>Character classes\<close>

text \<open>
  \<^verbatim>\<open>isalnum\<close>, \<^verbatim>\<open>isdigit\<close> and \<^verbatim>\<open>tolower\<close> of the C locale. A character outside
  ASCII (negative as a \<^verbatim>\<open>char\<close>) is in no class and is its own lower case.
\<close>

definition c_isdigit :: "byte \<Rightarrow> bool" where
  "c_isdigit c \<longleftrightarrow> 0x30 \<le> c \<and> c \<le> 0x39"

definition c_isupper :: "byte \<Rightarrow> bool" where
  "c_isupper c \<longleftrightarrow> 0x41 \<le> c \<and> c \<le> 0x5A"

definition c_islower :: "byte \<Rightarrow> bool" where
  "c_islower c \<longleftrightarrow> 0x61 \<le> c \<and> c \<le> 0x7A"

definition c_isalnum :: "byte \<Rightarrow> bool" where
  "c_isalnum c \<longleftrightarrow> c_isdigit c \<or> c_isupper c \<or> c_islower c"

definition c_tolower :: "byte \<Rightarrow> byte" where
  "c_tolower c = (if c_isupper c then c + 0x20 else c)"

definition iswhitespace :: "byte \<Rightarrow> bool" where
  "iswhitespace c \<longleftrightarrow>
     c = 0x20 \<or> c = c_newline \<or> c = 0x0C \<or> c = 0x0D \<or> c = 0x09 \<or> c = 0x0B"

definition isname :: "byte \<Rightarrow> bool" where
  "isname c \<longleftrightarrow> c_isalnum c \<or> c = 0x5F"

subsection \<open>Lexeme extractors\<close>

text \<open>The loop of \<^verbatim>\<open>extract_general_name\<close>; \<open>name\<close> is the buffer filled so far.\<close>

partial_function (option) extract_general_name_loop ::
  "ReadBuffer \<Rightarrow> byte list \<Rightarrow> (lexer_error + byte list \<times> ReadBuffer) option" where
  "extract_general_name_loop buf name =
     (case next_char_lookup buf of (la, buf1) \<Rightarrow>
        if \<not> isname la then Some (Inr (name, buf1))
        else if length name = GENERAL_NAME_MAX_SIZE
          then Some (Inl LEXER_ERROR_IDENTIFIER_NAME_TOO_LONG)
        else (case next_char buf1 of (c, buf2) \<Rightarrow>
                extract_general_name_loop buf2 (name @ [c])))"

declare extract_general_name_loop.simps [code]

definition extract_general_name ::
  "ReadBuffer \<Rightarrow> (lexer_error + byte list \<times> ReadBuffer) option" where
  "extract_general_name read_buffer =
     (case current_char_lookup read_buffer of (c0, buf0) \<Rightarrow>
        extract_general_name_loop buf0 [c0])"

text \<open>The loop of \<^verbatim>\<open>extract_string\<close>.\<close>

partial_function (option) extract_string_loop ::
  "ReadBuffer \<Rightarrow> byte list \<Rightarrow> (lexer_error + byte list \<times> ReadBuffer) option" where
  "extract_string_loop buf name =
     (if length name = LITERAL_STRING_MAX_SIZE
        then Some (Inl LEXER_ERROR_STRING_LITERAL_TOO_LONG)
      else
       (case current_char_lookup buf of (previous_char, buf0) \<Rightarrow>
        case next_char buf0 of (current_char, buf1) \<Rightarrow>
          if previous_char \<noteq> c_bslash \<and> current_char = c_dquote
            then Some (Inr (name, buf1))
          else if current_char = 0 \<or> current_char = c_EOF
            then Some (Inl LEXER_ERROR_INVALID_STRING_CHARACTER)
          else
           (case next_char_lookup buf1 of (la, buf2) \<Rightarrow>
              if la = c_newline then
                (if current_char = c_bslash
                   then (case next_char buf2 of (nl, buf3) \<Rightarrow> extract_string_loop buf3 name)
                 else Some (Inl LEXER_ERROR_NON_ESCAPED_NEWLINE))
              else extract_string_loop buf2 (name @ [current_char]))))"

declare extract_string_loop.simps [code]

definition extract_string ::
  "ReadBuffer \<Rightarrow> (lexer_error + byte list \<times> ReadBuffer) option" where
  "extract_string read_buffer = extract_string_loop read_buffer []"

text \<open>\<^verbatim>\<open>extract_terminal\<close>; \<open>None\<close> is the \<^verbatim>\<open>NULL\<close> of an unknown character.\<close>

definition extract_terminal :: "ReadBuffer \<Rightarrow> string option \<times> ReadBuffer" where
  "extract_terminal read_buffer =
     (case current_char_lookup read_buffer of (c, buf0) \<Rightarrow>
        if c = c_lparen then (Some ''lparen'', buf0)
        else if c = c_rparen then (Some ''rparen'', buf0)
        else if c = c_star then (Some ''times'', buf0)
        else if c = 0x2B then (Some ''plus'', buf0)
        else if c = 0x2C then (Some ''comma'', buf0)
        else if c = c_minus then (Some ''minus'', buf0)
        else if c = 0x2E then (Some ''dot'', buf0)
        else if c = 0x2F then (Some ''divide'', buf0)
        else if c = 0x3A then (Some ''colon'', buf0)
        else if c = 0x3B then (Some ''semi'', buf0)
        else if c = c_less then
          (case next_char_lookup buf0 of (la, buf1) \<Rightarrow>
             if la = c_minus then (Some ''larrow'', snd (next_char buf1))
             else if la = c_equal then (Some ''le'', snd (next_char buf1))
             else (Some ''lt'', buf1))
        else if c = c_equal then
          (case next_char_lookup buf0 of (la, buf1) \<Rightarrow>
             if la = c_greater then (Some ''rarrow'', snd (next_char buf1))
             else (Some ''equals'', buf1))
        else if c = 0x40 then (Some ''at'', buf0)
        else if c = 0x7B then (Some ''lbrace'', buf0)
        else if c = 0x7D then (Some ''rbrace'', buf0)
        else if c = 0x7E then (Some ''tilde'', buf0)
        else (None, buf0))"

subsection \<open>Classifiers\<close>

definition keywords_array :: "string list" where
  "keywords_array = [''class'', ''else'', ''false'', ''fi'', ''if'',
                     ''in'', ''inherits'', ''isvoid'', ''let'', ''loop'',
                     ''pool'', ''then'', ''while'', ''case'', ''esac'',
                     ''new'', ''of'', ''not'', ''true'']"

text \<open>
  \<^verbatim>\<open>check_keyword\<close>: the first keyword equal (\<^verbatim>\<open>strcmp\<close>) to the lower-cased text, or
  \<open>None\<close> for \<^verbatim>\<open>NULL\<close>.
\<close>

definition check_keyword :: "byte list \<Rightarrow> string option" where
  "check_keyword text =
     (let text_lower = map c_tolower text
      in find (\<lambda>k. text_lower = cstr k) keywords_array)"

text \<open>
  The conversion loop of \<^verbatim>\<open>check_integer\<close>: \<^verbatim>\<open>i\<close> runs from the last index down to 0,
  \<^verbatim>\<open>power\<close> (here \<open>pwr\<close>) is an \<^verbatim>\<open>int32_t\<close> and \<^verbatim>\<open>num\<close> a \<^verbatim>\<open>uint32_t\<close>; both are 32-bit words
  that wrap around (the last \<^verbatim>\<open>power *= 10\<close> of a ten-digit text does).
\<close>

function check_integer_loop :: "byte list \<Rightarrow> int \<Rightarrow> 32 word \<Rightarrow> 32 word \<Rightarrow> 32 word" where
  "check_integer_loop text i pwr num =
     (if i \<ge> 0
      then check_integer_loop text (i - 1) (pwr * 10)
             (num + (scast (text ! nat i) - 48) * pwr)
      else num)"
  by pat_completeness auto
termination
  by (relation "measure (\<lambda>(text, i, pwr, num). nat (i + 1))") auto

definition check_integer :: "byte list \<Rightarrow> bool" where
  "check_integer text =
     (let text_size = length text in
      if text_size > 10 then False
      else if \<not> list_all c_isdigit text then False
      else if text_size = 10 \<and> sint (text ! 0) > sint (0x32 :: byte) then False
      else
        let num = check_integer_loop text (int text_size - 1) 1 0
        in unat num \<le> 2147483647)"

subsection \<open>Comments\<close>

text \<open>The \<^verbatim>\<open>do ... while\<close> loop of the one-line comment.\<close>

partial_function (option) remove_comments_line_loop :: "ReadBuffer \<Rightarrow> ReadBuffer option" where
  "remove_comments_line_loop buf =
     (case next_char buf of (current_char, buf1) \<Rightarrow>
        if current_char \<noteq> c_newline \<and> current_char \<noteq> c_EOF
        then remove_comments_line_loop buf1
        else Some buf1)"

text \<open>
  The \<^verbatim>\<open>while\<close> loop of the block comment. The lookahead is only evaluated when the
  current character is an asterisk (\<^verbatim>\<open>&&\<close> short-circuits).
\<close>

partial_function (option) remove_comments_block_loop ::
  "byte \<Rightarrow> ReadBuffer \<Rightarrow> ReadBuffer option" where
  "remove_comments_block_loop current_char buf =
     (if current_char \<noteq> c_EOF then
        (if current_char = c_star then
           (case next_char_lookup buf of (la, buf1) \<Rightarrow>
              if la = c_rparen then Some buf1
              else (case next_char buf1 of (c, buf2) \<Rightarrow> remove_comments_block_loop c buf2))
         else (case next_char buf of (c, buf1) \<Rightarrow> remove_comments_block_loop c buf1))
      else Some buf)"

declare remove_comments_line_loop.simps [code]
declare remove_comments_block_loop.simps [code]

definition remove_comments :: "ReadBuffer \<Rightarrow> (bool \<times> ReadBuffer) option" where
  "remove_comments read_buffer =
     (case current_char_lookup read_buffer of (current_char, buf0) \<Rightarrow>
      case (if current_char = c_minus
            then (case next_char_lookup buf0 of (la, b) \<Rightarrow> (la = c_minus, b))
            else (False, buf0)) of (one_line, buf1) \<Rightarrow>
        if one_line then
          (case remove_comments_line_loop buf1 of
             None \<Rightarrow> None
           | Some buf2 \<Rightarrow> Some (True, buf2))
        else
         (case (if current_char = c_lparen
                then (case next_char_lookup buf1 of (la, b) \<Rightarrow> (la = c_star, b))
                else (False, buf1)) of (multi_line, buf2) \<Rightarrow>
            if multi_line then
              (case remove_comments_block_loop current_char buf2 of
                 None \<Rightarrow> None
               | Some buf3 \<Rightarrow> Some (True, snd (next_char buf3)))
            else Some (False, buf2)))"

subsection \<open>The scanner\<close>

text \<open>
  A token as it is printed: the line number, the name of the token (a terminal, a
  keyword or one of \<^verbatim>\<open>string\<close>, \<^verbatim>\<open>integer\<close>, \<^verbatim>\<open>type\<close>, \<^verbatim>\<open>identifier\<close>), and for
  the last four the text on the following line.
\<close>

datatype token = Token (tok_line: nat) (tok_name: string) (tok_text: "byte list option")

text \<open>
  The end of the loop body of \<^verbatim>\<open>lexer\<close>, after \<^verbatim>\<open>extract_general_name\<close>: the
  error to exit with or the token to print for the name in \<^verbatim>\<open>name_buffer\<close>. The test
  on the keyword is the disjunction of the two \<^verbatim>\<open>strcmp\<close> results, as written.
\<close>

definition classify_general_name :: "nat \<Rightarrow> byte list \<Rightarrow> lexer_error + token" where
  "classify_general_name line name_buffer =
     (if c_isdigit (name_buffer ! 0) then
        (if check_integer name_buffer
         then Inr (Token line ''integer'' (Some name_buffer))
         else Inl LEXER_ERROR_WRONG_INTEGER32_FORMAT)
      else
       (case check_keyword name_buffer of
          Some keyword \<Rightarrow>
            if (keyword \<noteq> ''true'' \<or> keyword \<noteq> ''false'')
               \<and> 65 \<le> sint (name_buffer ! 0) \<and> sint (name_buffer ! 0) \<le> 90
            then Inl LEXER_ERROR_UPPERCASE_BOOLEAN_KEYWORD
            else Inr (Token line keyword None)
        | None \<Rightarrow>
            if 65 \<le> sint (name_buffer ! 0) \<and> sint (name_buffer ! 0) \<le> 90
            then Inr (Token line ''type'' (Some name_buffer))
            else Inr (Token line ''identifier'' (Some name_buffer))))"

text \<open>
  One pass through the body of the \<^verbatim>\<open>while (1)\<close> of \<^verbatim>\<open>lexer\<close>: the loop ends, or
  goes on with the buffer and the tokens printed so far. The line number is printed
  before the lexeme is extracted.
\<close>

datatype iteration = Break | Continue ReadBuffer "token list"

definition lexer_iteration ::
  "ReadBuffer \<Rightarrow> token list \<Rightarrow> (lexer_error + iteration) option" where
  "lexer_iteration read_buffer out =
     (case next_char read_buffer of (current_char, buf1) \<Rightarrow>
      if current_char = c_EOF then Some (Inr Break)
      else if iswhitespace current_char then Some (Inr (Continue buf1 out))
      else
       (case remove_comments buf1 of
          None \<Rightarrow> None
        | Some (removed, buf2) \<Rightarrow>
          if removed then Some (Inr (Continue buf2 out))
          else
           (let line = current_line buf2 in
            if current_char = c_dquote then
              (case extract_string buf2 of
                 None \<Rightarrow> None
               | Some (Inl e) \<Rightarrow> Some (Inl e)
               | Some (Inr (name_buffer, buf3)) \<Rightarrow>
                   Some (Inr (Continue buf3 (out @ [Token line ''string'' (Some name_buffer)]))))
            else if \<not> isname current_char then
              (case extract_terminal buf2 of
                 (None, buf3) \<Rightarrow> Some (Inl LEXER_ERROR_INVALID_CHARACTER)
               | (Some terminal_name, buf3) \<Rightarrow>
                   Some (Inr (Continue buf3 (out @ [Token line terminal_name None]))))
            else
              (case extract_general_name buf2 of
                 None \<Rightarrow> None
               | Some (Inl e) \<Rightarrow> Some (Inl e)
               | Some (Inr (name_buffer, buf3)) \<Rightarrow>
                  (case classify_general_name line name_buffer of
                     Inl e \<Rightarrow> Some (Inl e)
                   | Inr tok \<Rightarrow> Some (Inr (Continue buf3 (out @ [tok]))))))))"

partial_function (option) lexer_loop ::
  "ReadBuffer \<Rightarrow> token list \<Rightarrow> (lexer_error + token list) option" where
  "lexer_loop buf out =
     (case lexer_iteration buf out of
        None \<Rightarrow> None
      | Some (Inl e) \<Rightarrow> Some (Inl e)
      | Some (Inr Break) \<Rightarrow> Some (Inr out)
      | Some (Inr (Continue buf' out')) \<Rightarrow> lexer_loop buf' out')"

declare lexer_loop.simps [code]

text \<open>
  \<^verbatim>\<open>lexer\<close> on the bytes of the input file: the tokens written to the output file, or
  the error it exits with. Opening the two files is left to the caller.
\<close>

definition lexer :: "byte list \<Rightarrow> (lexer_error + token list) option" where
  "lexer fp = lexer_loop (init_buffer fp) []"

text \<open>The exit status of \<^verbatim>\<open>main\<close> on a readable file: \<^verbatim>\<open>LEXER_OK\<close> when \<^verbatim>\<open>lexer\<close> returns.\<close>

definition main_status :: "byte list \<Rightarrow> nat option" where
  "main_status fp =
     (case lexer fp of
        None \<Rightarrow> None
      | Some (Inl e) \<Rightarrow> Some (exit_code e)
      | Some (Inr out) \<Rightarrow> Some 0)"

subsection \<open>Vocabulary of the properties\<close>

text \<open>
  The invariant of the buffer (the cursor never passes the count of valid bytes, which
  never passes the block size), and the bytes that the scanner has not consumed yet:
  the unread part of the block followed by the unread part of the file.
\<close>

definition wf_buffer :: "ReadBuffer \<Rightarrow> bool" where
  "wf_buffer buf \<longleftrightarrow>
     current_position buf \<le> total_size buf \<and> total_size buf \<le> INPUT_FILE_BLOCK_SIZE
     \<and> fp_pos buf \<le> length (fp_data buf)"

definition pending :: "ReadBuffer \<Rightarrow> byte list" where
  "pending buf =
     map (content buf) [current_position buf ..< total_size buf]
     @ drop (fp_pos buf) (fp_data buf)"

text \<open>The number that a string of decimal digits denotes.\<close>

definition decimal_value :: "byte list \<Rightarrow> nat" where
  "decimal_value s = foldl (\<lambda>v c. 10 * v + (unat c - 48)) 0 s"

text \<open>
  \<open>plain_content p cs\<close>: after the character \<open>p\<close>, the bytes \<open>cs\<close> of a string literal
  hold no closing quote (a quote not preceded by a backslash), no null byte, no byte
  \<open>0xFF\<close> and no newline.
\<close>

fun plain_content :: "byte \<Rightarrow> byte list \<Rightarrow> bool" where
  "plain_content p [] = True"
| "plain_content p (c # cs) =
     ((p = c_bslash \<or> c \<noteq> c_dquote) \<and> c \<noteq> 0 \<and> c \<noteq> c_EOF \<and> c \<noteq> c_newline
      \<and> plain_content c cs)"

text \<open>\<open>has_closer cs\<close>: somewhere in \<open>cs\<close> an asterisk is directly followed by \<open>)\<close>.\<close>

fun has_closer :: "byte list \<Rightarrow> bool" where
  "has_closer (a # b # cs) = ((a = c_star \<and> b = c_rparen) \<or> has_closer (b # cs))"
| "has_closer cs = False"

section \<open>The buffer\<close>

lemma map_nth_if: "map (\<lambda>i. if i < length xs then xs ! i else f i) [0..<length xs] = xs"
proof -
  have "map (\<lambda>i. if i < length xs then xs ! i else f i) [0..<length xs]
      = map (\<lambda>i. xs ! i) [0..<length xs]"
    by (rule map_cong) auto
  then show ?thesis by (simp add: map_nth)
qed

lemma take_drop_len: "take n xs @ drop (length (take n xs)) xs = xs"
  by (cases "n \<le> length xs") (simp_all add: min_def)

lemma drop_eq_ConsD:
  assumes "drop n xs = c # cs"
  shows "n < length xs" "xs ! n = c" "drop (Suc n) xs = cs"
proof -
  show lt: "n < length xs"
    using assms by (metis drop_all list.distinct(1) not_le)
  from Cons_nth_drop_Suc [OF lt] assms show "xs ! n = c" "drop (Suc n) xs = cs"
    by simp_all
qed

text \<open>Refilling the block keeps the invariant and the pending bytes.\<close>

lemma fread_content_pending:
  assumes "fp_pos buf \<le> length (fp_data buf)"
  shows "pending ((fread_content buf)\<lparr>current_position := 0\<rparr>)
         = drop (fp_pos buf) (fp_data buf)"
proof -
  define got where "got = take INPUT_FILE_BLOCK_SIZE (drop (fp_pos buf) (fp_data buf))"
  have "pending ((fread_content buf)\<lparr>current_position := 0\<rparr>)
      = map (\<lambda>i. if i < length got then got ! i else content buf i) [0..<length got]
        @ drop (fp_pos buf + length got) (fp_data buf)"
    by (simp add: pending_def fread_content_def Let_def got_def)
  also have "\<dots> = got @ drop (length got) (drop (fp_pos buf) (fp_data buf))"
    by (simp only: map_nth_if drop_drop add.commute)
  also have "\<dots> = drop (fp_pos buf) (fp_data buf)"
    by (simp only: got_def take_drop_len)
  finally show ?thesis .
qed

lemma fread_content_wf:
  assumes "fp_pos buf \<le> length (fp_data buf)"
  shows "wf_buffer ((fread_content buf)\<lparr>current_position := 0\<rparr>)"
  using assms by (auto simp: wf_buffer_def fread_content_def Let_def min_def)

lemma fread_content_fields:
  "fp_data (fread_content buf) = fp_data buf"
  "current_line (fread_content buf) = current_line buf"
  "current_position (fread_content buf) = current_position buf"
  by (simp_all add: fread_content_def Let_def)

lemma fread_content_total_size:
  "total_size (fread_content buf) = 0 \<longleftrightarrow> drop (fp_pos buf) (fp_data buf) = []"
  by (auto simp: fread_content_def Let_def INPUT_FILE_BLOCK_SIZE_def)

lemma wf_init_buffer: "wf_buffer (init_buffer f)"
  using fread_content_wf [of "\<lparr>fp_data = f, fp_pos = 0, content = (\<lambda>i. 0),
      current_position = 0, total_size = 0, current_line = 1\<rparr>"]
  by (simp add: init_buffer_def wf_buffer_def fread_content_fields)

lemma pending_init_buffer: "pending (init_buffer f) = f"
  using fread_content_pending [of "\<lparr>fp_data = f, fp_pos = 0, content = (\<lambda>i. 0),
      current_position = 0, total_size = 0, current_line = 1\<rparr>"]
  by (simp add: init_buffer_def pending_def fread_content_fields)

lemma line_init_buffer: "current_line (init_buffer f) = 1"
  by (simp add: init_buffer_def fread_content_fields)

text \<open>\<^verbatim>\<open>next_char\<close> takes the first pending byte, or returns the end marker.\<close>

lemma next_char_inside:
  assumes "current_position buf < total_size buf" "total_size buf \<le> INPUT_FILE_BLOCK_SIZE"
    "fp_pos buf \<le> length (fp_data buf)" "pending buf = c # cs"
  obtains b where "next_char buf = (c, b)" "wf_buffer b" "pending b = cs"
    "current_char_lookup b = (c, b)"
    "current_line b = (if c = c_newline then current_line buf + 1 else current_line buf)"
    "fp_data b = fp_data buf"
proof -
  note lt = assms(1)
  then have up: "[current_position buf ..< total_size buf]
      = current_position buf # [Suc (current_position buf) ..< total_size buf]"
    by (simp add: upt_conv_Cons)
  with assms(4) have c: "content buf (current_position buf) = c"
    and cs: "map (content buf) [Suc (current_position buf) ..< total_size buf]
             @ drop (fp_pos buf) (fp_data buf) = cs"
    by (simp_all add: pending_def)
  let ?b = "snd (next_char buf)"
  have "next_char buf = (c, ?b)"
    using lt c by (simp add: next_char_def Let_def)
  moreover have "wf_buffer ?b"
    using lt assms(2,3) by (simp add: next_char_def Let_def wf_buffer_def)
  moreover have "pending ?b = cs"
    using lt cs by (simp add: next_char_def Let_def pending_def)
  moreover have "current_char_lookup ?b = (c, ?b)"
    using lt c by (simp add: next_char_def Let_def current_char_lookup_def)
  moreover have "current_line ?b
      = (if c = c_newline then current_line buf + 1 else current_line buf)"
    using lt c by (simp add: next_char_def Let_def)
  moreover have "fp_data ?b = fp_data buf"
    using lt by (simp add: next_char_def Let_def)
  ultimately show ?thesis by (rule that)
qed

lemma next_char_refill:
  assumes "current_position buf = total_size buf" "total_size (fread_content buf) \<noteq> 0"
  shows "next_char buf = next_char ((fread_content buf)\<lparr>current_position := 0\<rparr>)"
  using assms by (simp add: next_char_def Let_def)

lemma next_char_Cons:
  assumes "wf_buffer buf" "pending buf = c # cs"
  obtains b where "next_char buf = (c, b)" "wf_buffer b" "pending b = cs"
    "current_char_lookup b = (c, b)"
    "current_line b = (if c = c_newline then current_line buf + 1 else current_line buf)"
    "fp_data b = fp_data buf"
proof (cases "current_position buf = total_size buf")
  case False
  with assms(1) have "current_position buf < total_size buf"
    "total_size buf \<le> INPUT_FILE_BLOCK_SIZE" "fp_pos buf \<le> length (fp_data buf)"
    by (simp_all add: wf_buffer_def)
  from next_char_inside [OF this assms(2)] that show ?thesis by blast
next
  case True
  let ?b0 = "(fread_content buf)\<lparr>current_position := 0\<rparr>"
  from assms(1) have fp: "fp_pos buf \<le> length (fp_data buf)"
    by (simp add: wf_buffer_def)
  from True assms(2) have d: "drop (fp_pos buf) (fp_data buf) = c # cs"
    by (simp add: pending_def)
  have p0: "pending ?b0 = c # cs"
    using fread_content_pending [OF fp] d by simp
  have ts: "total_size (fread_content buf) \<noteq> 0"
    using d by (simp add: fread_content_total_size)
  have w0: "wf_buffer ?b0" by (rule fread_content_wf [OF fp])
  have "current_position ?b0 < total_size ?b0" "total_size ?b0 \<le> INPUT_FILE_BLOCK_SIZE"
    "fp_pos ?b0 \<le> length (fp_data ?b0)"
    using w0 ts by (simp_all add: wf_buffer_def)
  from next_char_inside [OF this p0] obtain b where
    "next_char ?b0 = (c, b)" "wf_buffer b" "pending b = cs" "current_char_lookup b = (c, b)"
    "current_line b = (if c = c_newline then current_line ?b0 + 1 else current_line ?b0)"
    "fp_data b = fp_data ?b0"
    by blast
  then show ?thesis
    using that [of b] next_char_refill [OF True ts] by (simp add: fread_content_fields)
qed

lemma next_char_Nil:
  assumes "wf_buffer buf" "pending buf = []"
  obtains b where "next_char buf = (c_EOF, b)" "wf_buffer b" "pending b = []"
    "current_char_lookup b = (c_EOF, b)" "current_line b = current_line buf"
    "fp_data b = fp_data buf"
proof -
  from assms have eq: "current_position buf = total_size buf"
    and d: "drop (fp_pos buf) (fp_data buf) = []"
    by (auto simp: pending_def wf_buffer_def)
  from assms(1) have fp: "fp_pos buf \<le> length (fp_data buf)"
    by (simp add: wf_buffer_def)
  let ?b0 = "(fread_content buf)\<lparr>current_position := 0\<rparr>"
  have ts: "total_size (fread_content buf) = 0"
    using d by (simp add: fread_content_total_size)
  have "next_char buf = (c_EOF, ?b0)"
    using eq ts by (simp add: next_char_def Let_def)
  moreover have "wf_buffer ?b0" by (rule fread_content_wf [OF fp])
  moreover have "pending ?b0 = []"
    using fread_content_pending [OF fp] d by simp
  moreover have "current_char_lookup ?b0 = (c_EOF, ?b0)"
    by (simp add: current_char_lookup_def)
  moreover have "current_line ?b0 = current_line buf" "fp_data ?b0 = fp_data buf"
    by (simp_all add: fread_content_fields)
  ultimately show ?thesis by (rule that)
qed

text \<open>
  \<^verbatim>\<open>next_char_lookup\<close> shows the first pending byte and changes nothing, unless that
  byte is \<open>0xFF\<close>: then it returns the end marker, and at the end of the block the byte
  is lost.
\<close>

lemma next_char_lookup_Cons:
  assumes "wf_buffer buf" "pending buf = c # cs" "c \<noteq> c_EOF"
  shows "next_char_lookup buf = (c, buf)"
proof (cases "current_position buf = total_size buf")
  case True
  with assms(2) have d: "drop (fp_pos buf) (fp_data buf) = c # cs"
    by (simp add: pending_def)
  then have "fp_pos buf < length (fp_data buf)" "fp_data buf ! fp_pos buf = c"
    by (simp_all add: drop_eq_ConsD)
  with True assms(3) show ?thesis
    by (simp add: next_char_lookup_def Let_def)
next
  case False
  with assms(1) have "current_position buf < total_size buf"
    by (simp add: wf_buffer_def)
  with assms(2) have "content buf (current_position buf) = c"
    by (simp add: pending_def upt_conv_Cons)
  with False show ?thesis
    by (simp add: next_char_lookup_def)
qed

lemma next_char_lookup_Nil:
  assumes "wf_buffer buf" "pending buf = []"
  shows "next_char_lookup buf = (c_EOF, buf)"
proof -
  from assms have "current_position buf = total_size buf"
    "length (fp_data buf) \<le> fp_pos buf"
    by (auto simp: pending_def wf_buffer_def)
  then show ?thesis by (simp add: next_char_lookup_def)
qed

lemma next_char_lookup_EOF:
  assumes "wf_buffer buf" "pending buf = c_EOF # cs"
  obtains b where "next_char_lookup buf = (c_EOF, b)" "wf_buffer b"
    "pending b = c_EOF # cs \<or> pending b = cs"
    "fst (current_char_lookup b) = fst (current_char_lookup buf)"
    "current_line b = current_line buf" "fp_data b = fp_data buf"
proof (cases "current_position buf = total_size buf")
  case True
  with assms(2) have d: "drop (fp_pos buf) (fp_data buf) = c_EOF # cs"
    by (simp add: pending_def)
  then have lt: "fp_pos buf < length (fp_data buf)"
    and nth: "fp_data buf ! fp_pos buf = c_EOF"
    and dr: "drop (Suc (fp_pos buf)) (fp_data buf) = cs"
    by (simp_all add: drop_eq_ConsD)
  let ?b = "buf\<lparr>fp_pos := fp_pos buf + 1\<rparr>"
  have "next_char_lookup buf = (c_EOF, ?b)"
    using True lt nth by (simp add: next_char_lookup_def Let_def)
  moreover have "wf_buffer ?b"
    using assms(1) lt by (simp add: wf_buffer_def)
  moreover have "pending ?b = cs"
    using True dr by (simp add: pending_def)
  moreover have "fst (current_char_lookup ?b) = fst (current_char_lookup buf)"
    by (simp add: current_char_lookup_def)
  moreover have "current_line ?b = current_line buf" "fp_data ?b = fp_data buf"
    by simp_all
  ultimately show ?thesis using that by blast
next
  case False
  with assms(1) have "current_position buf < total_size buf"
    by (simp add: wf_buffer_def)
  with assms(2) have "content buf (current_position buf) = c_EOF"
    by (simp add: pending_def upt_conv_Cons)
  with False have "next_char_lookup buf = (c_EOF, buf)"
    by (simp add: next_char_lookup_def)
  then show ?thesis using that [of buf] assms by simp
qed

text \<open>
  Claim C9. Looking at the next character (\<^verbatim>\<open>next_char_lookup\<close>) or at the current one
  (\<^verbatim>\<open>current_char_lookup\<close>) leaves the cursor position, the count of valid bytes and
  the line counter of the buffer as they were, in every state of the buffer; this
  includes the state in which the block is exhausted and \<^verbatim>\<open>next_char_lookup\<close> reads
  one byte from the file.
\<close>

theorem lookup_keeps_cursor:
  "current_position (snd (next_char_lookup buf)) = current_position buf
   \<and> total_size (snd (next_char_lookup buf)) = total_size buf
   \<and> current_line (snd (next_char_lookup buf)) = current_line buf
   \<and> current_position (snd (current_char_lookup buf)) = current_position buf
   \<and> total_size (snd (current_char_lookup buf)) = total_size buf
   \<and> current_line (snd (current_char_lookup buf)) = current_line buf"
  by (simp add: next_char_lookup_def current_char_lookup_def Let_def)

section \<open>The integer validator\<close>

lemma digit_bounds:
  assumes "c_isdigit c"
  shows "48 \<le> unat c" "unat c \<le> 57"
  using assms by (simp_all add: c_isdigit_def word_le_nat_alt)

lemma digit_sint:
  assumes "c_isdigit c"
  shows "sint c = int (unat c)"
proof -
  from assms have le: "uint c \<le> 57"
    by (simp add: c_isdigit_def word_le_def)
  have ge: "0 \<le> uint c" by simp
  have "signed_take_bit 7 (uint c) = uint c"
  proof (rule signed_take_bit_int_eq_self)
    from ge show "- (2 ^ 7) \<le> uint c"
      by (rule order_trans [rotated]) simp
    from le show "uint c < 2 ^ 7"
      by (rule le_less_trans) simp
  qed
  then have "sint c = uint c"
    by (simp add: sint_uint)
  then show ?thesis by (simp only: uint_nat)
qed

lemma digit_scast:
  assumes "c_isdigit c"
  shows "(scast c - 48 :: 32 word) = of_nat (unat c - 48)"
proof -
  have "(scast c :: 32 word) = of_nat (unat c)"
    by (simp only: scast_eq digit_sint [OF assms] of_int_of_nat_eq)
  moreover have "(of_nat (unat c - 48) :: 32 word) = of_nat (unat c) - of_nat 48"
    using digit_bounds(1) [OF assms] by (simp only: of_nat_diff)
  ultimately show ?thesis by simp
qed

lemma decimal_value_snoc:
  "decimal_value (s @ [c]) = 10 * decimal_value s + (unat c - 48)"
  by (simp add: decimal_value_def)

lemma check_integer_loop_eq:
  assumes "list_all c_isdigit text" "k \<le> length text"
  shows "check_integer_loop text (int k - 1) pwr num
         = num + pwr * of_nat (decimal_value (take k text))"
  using assms(2)
proof (induction k arbitrary: pwr num)
  case 0
  show ?case by (simp add: decimal_value_def)
next
  case (Suc k)
  then have lt: "k < length text" by simp
  with assms(1) have dig: "c_isdigit (text ! k)"
    by (simp add: list_all_length)
  have tk: "take (Suc k) text = take k text @ [text ! k]"
    using lt by (simp add: take_Suc_conv_app_nth)
  have "check_integer_loop text (int (Suc k) - 1) pwr num
      = check_integer_loop text (int k - 1) (pwr * 10)
          (num + (scast (text ! k) - 48) * pwr)"
    by (subst check_integer_loop.simps) simp
  also have "\<dots> = num + (scast (text ! k) - 48) * pwr
      + pwr * 10 * of_nat (decimal_value (take k text))"
    using Suc.IH lt by simp
  also have "\<dots> = num + pwr * of_nat (decimal_value (take (Suc k) text))"
    by (simp only: tk decimal_value_snoc digit_scast [OF dig]) (simp add: algebra_simps)
  finally show ?case .
qed

lemma decimal_value_less:
  assumes "list_all c_isdigit s"
  shows "decimal_value s < 10 ^ length s"
  using assms
proof (induction s rule: rev_induct)
  case Nil
  show ?case by (simp add: decimal_value_def)
next
  case (snoc c s)
  then have "decimal_value s < 10 ^ length s" "unat c \<le> 57"
    by (simp_all add: digit_bounds)
  then show ?case
    by (simp add: decimal_value_snoc)
qed

lemma decimal_value_Cons:
  "decimal_value (c # s) = (unat c - 48) * 10 ^ length s + decimal_value s"
proof (induction s rule: rev_induct)
  case Nil
  show ?case by (simp add: decimal_value_def)
next
  case (snoc d s)
  have "decimal_value (c # s @ [d]) = decimal_value ((c # s) @ [d])" by simp
  also have "\<dots> = 10 * decimal_value (c # s) + (unat d - 48)"
    by (rule decimal_value_snoc)
  finally show ?case
    by (simp add: snoc.IH decimal_value_snoc algebra_simps)
qed

lemma decimal_value_fits:
  assumes "list_all c_isdigit s" "length s \<le> 10" "length s < 10 \<or> hd s \<le> 0x32"
  shows "decimal_value s < 2 ^ 32"
proof (cases "length s < 10")
  case True
  then have "(10::nat) ^ length s \<le> 10 ^ 9"
    by (intro power_increasing) simp_all
  with decimal_value_less [OF assms(1)] show ?thesis by simp
next
  case False
  with assms obtain c cs where s: "s = c # cs" and len: "length cs = 9" and c: "c \<le> 0x32"
    by (cases s) auto
  from assms(1) s have "decimal_value cs < 10 ^ 9"
    using decimal_value_less [of cs] len by simp
  moreover from c have "unat c - 48 \<le> 2"
    by (simp add: word_le_nat_alt)
  then have "(unat c - 48) * 10 ^ 9 \<le> 2 * 10 ^ 9"
    by (rule mult_le_mono1)
  ultimately show ?thesis
    by (simp add: s decimal_value_Cons len)
qed

section \<open>Names\<close>

lemma sint_upper_iff:
  "65 \<le> sint c \<and> sint c \<le> 90 \<longleftrightarrow> c_isupper c" for c :: byte
proof
  assume a: "65 \<le> sint c \<and> sint c \<le> 90"
  have "take_bit 8 (sint c) = sint c"
  proof (rule take_bit_int_eq_self)
    from a show "0 \<le> sint c" by simp
    from a have "sint c \<le> 90" by simp
    then show "sint c < 2 ^ 8" by (rule le_less_trans) simp
  qed
  then have "uint c = sint c" by (simp add: uint_sint)
  with a show "c_isupper c" by (simp add: c_isupper_def word_le_def)
next
  assume "c_isupper c"
  then have le: "uint c \<le> 90" and ge: "65 \<le> uint c"
    by (simp_all add: c_isupper_def word_le_def)
  have "signed_take_bit 7 (uint c) = uint c"
  proof (rule signed_take_bit_int_eq_self)
    from ge show "- (2 ^ 7) \<le> uint c"
      by (rule order_trans [rotated]) simp
    from le show "uint c < 2 ^ 7"
      by (rule le_less_trans) simp
  qed
  then have "sint c = uint c" by (simp add: sint_uint)
  with le ge show "65 \<le> sint c \<and> sint c \<le> 90" by simp
qed

lemma isname_not_special:
  assumes "isname c"
  shows "c \<noteq> c_EOF" "c \<noteq> c_newline" "c \<noteq> c_dquote" "c \<noteq> c_minus" "c \<noteq> c_lparen"
    "\<not> iswhitespace c" "c \<noteq> 0"
  using assms
  by (auto simp: isname_def c_isalnum_def c_isdigit_def c_isupper_def c_islower_def
      iswhitespace_def)

lemma not_isname_EOF: "\<not> isname c_EOF"
  by (simp add: isname_def c_isalnum_def c_isdigit_def c_isupper_def c_islower_def)

lemma remove_comments_other:
  assumes "current_char_lookup buf = (c, buf)" "c \<noteq> c_minus" "c \<noteq> c_lparen"
  shows "remove_comments buf = Some (False, buf)"
  using assms by (simp add: remove_comments_def)

lemma extract_general_name_loop_run:
  assumes "wf_buffer buf" "pending buf = cs @ rest" "list_all isname cs"
    "rest = [] \<or> \<not> isname (hd rest)" "length acc + length cs \<le> GENERAL_NAME_MAX_SIZE"
  shows "\<exists>b. extract_general_name_loop buf acc = Some (Inr (acc @ cs, b)) \<and> wf_buffer b
           \<and> current_line b = current_line buf
           \<and> (pending b = rest \<or> (\<exists>r. rest = c_EOF # r \<and> pending b = r))"
  using assms
proof (induction cs arbitrary: buf acc)
  case Nil
  show ?case
  proof (cases rest)
    case Nil
    with Nil.prems have "next_char_lookup buf = (c_EOF, buf)"
      by (simp add: next_char_lookup_Nil)
    then have "extract_general_name_loop buf acc = Some (Inr (acc, buf))"
      by (subst extract_general_name_loop.simps) (simp add: not_isname_EOF)
    with Nil.prems Nil show ?thesis by simp
  next
    case (Cons r rs)
    with Nil.prems have nr: "\<not> isname r" and p: "pending buf = r # rs" by simp_all
    show ?thesis
    proof (cases "r = c_EOF")
      case True
      with p Nil.prems(1) obtain b where b: "next_char_lookup buf = (c_EOF, b)" "wf_buffer b"
        "pending b = c_EOF # rs \<or> pending b = rs" "current_line b = current_line buf"
        by (auto elim: next_char_lookup_EOF)
      then have "extract_general_name_loop buf acc = Some (Inr (acc, b))"
        by (subst extract_general_name_loop.simps) (simp add: not_isname_EOF)
      with b Cons True show ?thesis by auto
    next
      case False
      with p Nil.prems(1) have "next_char_lookup buf = (r, buf)"
        by (simp add: next_char_lookup_Cons)
      then have "extract_general_name_loop buf acc = Some (Inr (acc, buf))"
        using nr by (subst extract_general_name_loop.simps) simp
      with Nil.prems Cons show ?thesis by simp
    qed
  qed
next
  case (Cons c cs)
  then have c: "isname c" and p: "pending buf = c # (cs @ rest)" by simp_all
  from isname_not_special [OF c] have ne: "c \<noteq> c_EOF" and nn: "c \<noteq> c_newline" by simp_all
  from Cons.prems(1) p ne have la: "next_char_lookup buf = (c, buf)"
    by (simp add: next_char_lookup_Cons)
  from Cons.prems(1) p obtain b1 where b1: "next_char buf = (c, b1)" "wf_buffer b1"
    "pending b1 = cs @ rest" "current_line b1 = current_line buf"
    using nn by (auto elim: next_char_Cons)
  from Cons.prems(5) have len: "length acc \<noteq> GENERAL_NAME_MAX_SIZE"
    "length (acc @ [c]) + length cs \<le> GENERAL_NAME_MAX_SIZE" by simp_all
  have step: "extract_general_name_loop buf acc = extract_general_name_loop b1 (acc @ [c])"
    using la c len(1) b1(1) by (subst extract_general_name_loop.simps) simp
  from Cons.IH [OF b1(2) b1(3) _ Cons.prems(4) len(2)] Cons.prems(3)
  obtain b where "extract_general_name_loop b1 (acc @ [c]) = Some (Inr ((acc @ [c]) @ cs, b))"
    "wf_buffer b" "current_line b = current_line b1"
    "pending b = rest \<or> (\<exists>r. rest = c_EOF # r \<and> pending b = r)"
    by auto
  with step b1(4) show ?case by auto
qed

lemma lexer_iteration_name:
  assumes "wf_buffer buf" "pending buf = name @ rest" "name \<noteq> []" "list_all isname name"
    "rest = [] \<or> \<not> isname (hd rest)" "length name \<le> GENERAL_NAME_MAX_SIZE"
  shows "\<exists>b. wf_buffer b \<and> current_line b = current_line buf
           \<and> (pending b = rest \<or> (\<exists>r. rest = c_EOF # r \<and> pending b = r))
           \<and> lexer_iteration buf out =
               (case classify_general_name (current_line buf) name of
                  Inl e \<Rightarrow> Some (Inl e)
                | Inr tok \<Rightarrow> Some (Inr (Continue b (out @ [tok]))))"
proof -
  from assms(3) obtain c cs where name: "name = c # cs" by (cases name) auto
  with assms(4) have c: "isname c" and cs: "list_all isname cs" by simp_all
  note sp = isname_not_special [OF c]
  from assms(1,2) name obtain b1 where b1: "next_char buf = (c, b1)" "wf_buffer b1"
    "pending b1 = cs @ rest" "current_char_lookup b1 = (c, b1)"
    "current_line b1 = current_line buf"
    using sp(2) by (auto elim: next_char_Cons)
  have rc: "remove_comments b1 = Some (False, b1)"
    using b1(4) sp(4,5) by (rule remove_comments_other)
  from assms(6) name have "length [c] + length cs \<le> GENERAL_NAME_MAX_SIZE" by simp
  from extract_general_name_loop_run [OF b1(2) b1(3) cs assms(5) this]
  obtain b where b: "extract_general_name_loop b1 [c] = Some (Inr (name, b))" "wf_buffer b"
    "current_line b = current_line b1"
    "pending b = rest \<or> (\<exists>r. rest = c_EOF # r \<and> pending b = r)"
    using name by auto
  have eg: "extract_general_name b1 = Some (Inr (name, b))"
    using b(1) b1(4) by (simp add: extract_general_name_def)
  have "lexer_iteration buf out =
      (case classify_general_name (current_line buf) name of
         Inl e \<Rightarrow> Some (Inl e)
       | Inr tok \<Rightarrow> Some (Inr (Continue b (out @ [tok]))))"
    using b1(1) b1(5) sp(1,3,6) rc eg c by (simp add: lexer_iteration_def)
  with b b1(5) show ?thesis by auto
qed

section \<open>Keywords\<close>

lemma keywords_array_lower:
  assumes "k \<in> set keywords_array"
  shows "list_all c_islower (cstr k)" "k \<noteq> []" "length k \<le> 8"
  using assms by (auto simp: keywords_array_def cstr_def c_islower_def)

lemma check_keyword_match:
  assumes "k \<in> set keywords_array" "map c_tolower name = cstr k"
  shows "check_keyword name = Some k"
  using assms by (auto simp: keywords_array_def check_keyword_def cstr_def)

lemma tolower_lower:
  assumes "c_islower (c_tolower c)"
  shows "isname c" "\<not> c_isdigit c"
proof -
  from assms have l: "c_isupper c \<or> c_islower c"
    by (auto simp: c_tolower_def split: if_splits)
  then show "isname c" by (auto simp: isname_def c_isalnum_def)
  from l show "\<not> c_isdigit c"
    by (auto simp: c_isupper_def c_islower_def c_isdigit_def word_le_nat_alt)
qed

lemma keyword_name:
  assumes "k \<in> set keywords_array" "map c_tolower name = cstr k"
  shows "name \<noteq> []" "list_all isname name" "\<not> c_isdigit (name ! 0)"
    "length name \<le> GENERAL_NAME_MAX_SIZE" "name ! 0 = hd name"
proof -
  note kw = keywords_array_lower [OF assms(1)]
  from assms(2) have len: "length name = length k"
    by (metis length_map cstr_def)
  with kw(2) show ne: "name \<noteq> []" by auto
  from kw(1) assms(2) have "list_all c_islower (map c_tolower name)" by simp
  then have low: "list_all (\<lambda>c. c_islower (c_tolower c)) name"
    by (simp add: list_all_iff)
  then show "list_all isname name"
    by (simp add: list_all_iff tolower_lower)
  from ne show hd: "name ! 0 = hd name" by (simp add: hd_conv_nth)
  from low ne have "c_islower (c_tolower (hd name))" by (cases name) simp_all
  then show "\<not> c_isdigit (name ! 0)" by (simp add: hd tolower_lower)
  from len kw(3) show "length name \<le> GENERAL_NAME_MAX_SIZE"
    by (simp add: GENERAL_NAME_MAX_SIZE_def)
qed

lemma classify_keyword:
  assumes "k \<in> set keywords_array" "map c_tolower name = cstr k"
  shows "classify_general_name line name =
           (if c_isupper (hd name) then Inl LEXER_ERROR_UPPERCASE_BOOLEAN_KEYWORD
            else Inr (Token line k None))"
proof -
  note n = keyword_name [OF assms]
  have "k \<noteq> ''true'' \<or> k \<noteq> ''false''" by auto
  then show ?thesis
    using n(3) check_keyword_match [OF assms] sint_upper_iff [of "name ! 0"]
    by (simp add: classify_general_name_def n(5))
qed

lemma lexer_loop_error:
  assumes "lexer_iteration buf out = Some (Inl e)"
  shows "lexer_loop buf out = Some (Inl e)"
  using assms by (subst lexer_loop.simps) simp

lemma lexer_loop_continue:
  assumes "lexer_iteration buf out = Some (Inr (Continue b out'))"
  shows "lexer_loop buf out = lexer_loop b out'"
  using assms by (subst lexer_loop.simps) simp

lemma lexer_loop_end:
  assumes "wf_buffer buf" "pending buf = []"
  shows "lexer_loop buf out = Some (Inr out)"
proof -
  from assms obtain b where "next_char buf = (c_EOF, b)"
    by (auto elim: next_char_Nil)
  then have "lexer_iteration buf out = Some (Inr Break)"
    by (simp add: lexer_iteration_def)
  then show ?thesis by (subst lexer_loop.simps) simp
qed

text \<open>
  Claim C1. A name that equals one of the 19 keywords once lower-cased makes the scanner
  exit with code 6 when its first character is an upper-case letter, whichever keyword
  it is; otherwise the scanner prints the keyword as the table spells it, in lower case,
  on the line of the name.
\<close>

theorem keyword_first_letter:
  assumes "wf_buffer buf" "pending buf = name @ rest" "rest = [] \<or> \<not> isname (hd rest)"
    "k \<in> set keywords_array" "map c_tolower name = cstr k"
  shows "length keywords_array = 19 \<and>
         (if c_isupper (hd name)
          then lexer_loop buf out = Some (Inl LEXER_ERROR_UPPERCASE_BOOLEAN_KEYWORD)
               \<and> exit_code LEXER_ERROR_UPPERCASE_BOOLEAN_KEYWORD = 6
          else \<exists>b. lexer_iteration buf out
                      = Some (Inr (Continue b (out @ [Token (current_line buf) k None])))
                    \<and> wf_buffer b)"
proof -
  note n = keyword_name [OF assms(4,5)]
  from lexer_iteration_name [OF assms(1,2) n(1,2) assms(3) n(4), of out]
  obtain b where b: "wf_buffer b"
    "lexer_iteration buf out =
       (case classify_general_name (current_line buf) name of
          Inl e \<Rightarrow> Some (Inl e)
        | Inr tok \<Rightarrow> Some (Inr (Continue b (out @ [tok]))))"
    by blast
  have len: "length keywords_array = 19" by (simp add: keywords_array_def)
  show ?thesis
  proof (cases "c_isupper (hd name)")
    case True
    with b(2) have "lexer_iteration buf out = Some (Inl LEXER_ERROR_UPPERCASE_BOOLEAN_KEYWORD)"
      by (simp add: classify_keyword [OF assms(4,5)])
    then show ?thesis using True len by (simp add: lexer_loop_error)
  next
    case False
    with b(2) have "lexer_iteration buf out
        = Some (Inr (Continue b (out @ [Token (current_line buf) k None])))"
      by (simp add: classify_keyword [OF assms(4,5)])
    with b(1) False len show ?thesis by auto
  qed
qed

theorem keyword_first_letter_witness:
  "lexer_loop (init_buffer (cstr ''Class'')) [] = Some (Inl LEXER_ERROR_UPPERCASE_BOOLEAN_KEYWORD)
   \<and> (\<exists>b. lexer_iteration (init_buffer (cstr ''iNHERITS x'')) []
            = Some (Inr (Continue b [Token 1 ''inherits'' None])))"
proof -
  have 1: "lexer_loop (init_buffer (cstr ''Class'')) []
        = Some (Inl LEXER_ERROR_UPPERCASE_BOOLEAN_KEYWORD)"
    using keyword_first_letter [of "init_buffer (cstr ''Class'')" "cstr ''Class''" "[]"
        "''class''" "[]"]
    by (simp add: wf_init_buffer pending_init_buffer keywords_array_def cstr_def
        c_tolower_def c_isupper_def)
  have 2: "\<exists>b. lexer_iteration (init_buffer (cstr ''iNHERITS x'')) []
            = Some (Inr (Continue b [Token 1 ''inherits'' None]))"
    using keyword_first_letter [of "init_buffer (cstr ''iNHERITS x'')" "cstr ''iNHERITS''"
        "cstr '' x''" "''inherits''" "[]"]
    by (auto simp add: wf_init_buffer pending_init_buffer line_init_buffer keywords_array_def
        cstr_def c_tolower_def c_isupper_def isname_def c_isalnum_def c_isdigit_def
        c_islower_def)
  from 1 2 show ?thesis by simp
qed

section \<open>Integers\<close>

text \<open>
  Claim C2. The integer validator accepts a string exactly when it has at most 10
  characters, all of them decimal digits, fewer than 10 of them or a first character of
  at most \<open>2\<close>, and denotes a number of at most 2147483647. When the scanner has
  extracted a lexeme that starts with a digit and the validator rejects it, the scanner
  exits with code 5.
\<close>

theorem check_integer_spec:
  "(check_integer s \<longleftrightarrow>
      length s \<le> 10 \<and> list_all c_isdigit s \<and> (length s < 10 \<or> hd s \<le> 0x32)
      \<and> decimal_value s \<le> 2147483647)
   \<and> (wf_buffer buf \<and> pending buf = s @ rest \<and> s \<noteq> [] \<and> c_isdigit (hd s)
        \<and> list_all isname s \<and> (rest = [] \<or> \<not> isname (hd rest))
        \<and> length s \<le> GENERAL_NAME_MAX_SIZE \<and> \<not> check_integer s
      \<longrightarrow> lexer_loop buf out = Some (Inl LEXER_ERROR_WRONG_INTEGER32_FORMAT)
          \<and> exit_code LEXER_ERROR_WRONG_INTEGER32_FORMAT = 5)"
proof (intro conjI impI)
  show "check_integer s \<longleftrightarrow>
      length s \<le> 10 \<and> list_all c_isdigit s \<and> (length s < 10 \<or> hd s \<le> 0x32)
      \<and> decimal_value s \<le> 2147483647"
  proof (cases "length s \<le> 10 \<and> list_all c_isdigit s")
    case False
    then show ?thesis by (auto simp: check_integer_def)
  next
    case True
    then have len: "length s \<le> 10" and dig: "list_all c_isdigit s" by simp_all
    have loop: "check_integer_loop s (int (length s) - 1) 1 0 = of_nat (decimal_value s)"
      using check_integer_loop_eq [OF dig, of "length s" 1 0] by simp
    show ?thesis
    proof (cases "length s = 10")
      case ten: True
      then have ne: "s \<noteq> []" by auto
      then have hd: "s ! 0 = hd s" by (simp add: hd_conv_nth)
      from dig ne have dh: "c_isdigit (hd s)" by (cases s) simp_all
      have c1: "sint (hd s) = int (unat (hd s))" by (rule digit_sint [OF dh])
      have c2: "sint (0x32 :: byte) = 50" by simp
      have c3: "hd s \<le> 0x32 \<longleftrightarrow> unat (hd s) \<le> 50" by (simp add: word_le_nat_alt)
      have cmp: "sint (hd s) > sint (0x32 :: byte) \<longleftrightarrow> \<not> hd s \<le> 0x32"
        unfolding c1 c2 c3 by linarith
      show ?thesis
      proof (cases "hd s \<le> 0x32")
        case le: True
        have "decimal_value s < 2 ^ 32"
          using decimal_value_fits [OF dig len] le by simp
        with loop have "unat (check_integer_loop s (int (length s) - 1) 1 0) = decimal_value s"
          by (simp add: unat_of_nat)
        then show ?thesis
          using len dig ten le cmp hd by (simp add: check_integer_def Let_def)
      next
        case gt: False
        then show ?thesis
          using len dig ten cmp hd by (simp add: check_integer_def Let_def)
      qed
    next
      case nten: False
      with len have lt: "length s < 10" by simp
      have "decimal_value s < 2 ^ 32"
        using decimal_value_fits [OF dig len] lt by simp
      with loop have "unat (check_integer_loop s (int (length s) - 1) 1 0) = decimal_value s"
        by (simp add: unat_of_nat)
      then show ?thesis
        using len dig lt by (simp add: check_integer_def Let_def)
    qed
  qed
next
  show "exit_code LEXER_ERROR_WRONG_INTEGER32_FORMAT = 5" by simp
next
  assume a: "wf_buffer buf \<and> pending buf = s @ rest \<and> s \<noteq> [] \<and> c_isdigit (hd s)
        \<and> list_all isname s \<and> (rest = [] \<or> \<not> isname (hd rest))
        \<and> length s \<le> GENERAL_NAME_MAX_SIZE \<and> \<not> check_integer s"
  then have hd: "s ! 0 = hd s" by (simp add: hd_conv_nth)
  from a lexer_iteration_name [of buf s rest out]
  obtain b where "lexer_iteration buf out =
       (case classify_general_name (current_line buf) s of
          Inl e \<Rightarrow> Some (Inl e)
        | Inr tok \<Rightarrow> Some (Inr (Continue b (out @ [tok]))))"
    by blast
  with a hd have "lexer_iteration buf out = Some (Inl LEXER_ERROR_WRONG_INTEGER32_FORMAT)"
    by (simp add: classify_general_name_def)
  then show "lexer_loop buf out = Some (Inl LEXER_ERROR_WRONG_INTEGER32_FORMAT)"
    by (rule lexer_loop_error)
qed

theorem check_integer_spec_witness:
  "check_integer (cstr ''2147483647'') \<and> \<not> check_integer (cstr ''2147483648'')
   \<and> \<not> check_integer (cstr ''12x'')
   \<and> lexer (cstr ''2147483648;'') = Some (Inl LEXER_ERROR_WRONG_INTEGER32_FORMAT)"
proof -
  have 1: "check_integer (cstr ''2147483647'')"
    using check_integer_spec [of "cstr ''2147483647''"]
    by (simp add: cstr_def c_isdigit_def decimal_value_def)
  have 2: "\<not> check_integer (cstr ''2147483648'')"
    using check_integer_spec [of "cstr ''2147483648''"]
    by (simp add: cstr_def c_isdigit_def decimal_value_def)
  have 3: "\<not> check_integer (cstr ''12x'')"
    using check_integer_spec [of "cstr ''12x''"]
    by (simp add: cstr_def c_isdigit_def decimal_value_def)
  have 4: "lexer (cstr ''2147483648;'') = Some (Inl LEXER_ERROR_WRONG_INTEGER32_FORMAT)"
    using check_integer_spec [of "cstr ''2147483648''" "init_buffer (cstr ''2147483648;'')"
        "cstr '';''" "[]"] 2
    by (simp add: lexer_def wf_init_buffer pending_init_buffer GENERAL_NAME_MAX_SIZE_def)
       (simp add: cstr_def isname_def c_isalnum_def c_isdigit_def c_isupper_def c_islower_def)
  from 1 2 3 4 show ?thesis by simp
qed

section \<open>String literals\<close>

lemma current_char_lookup_same:
  "current_char_lookup buf = (fst (current_char_lookup buf), buf)"
  by (simp add: current_char_lookup_def)

lemma plain_content_append:
  "plain_content p (xs @ ys) \<longleftrightarrow> plain_content p xs \<and> plain_content (last (p # xs)) ys"
  by (induction xs arbitrary: p) auto

lemma plain_content_hd:
  assumes "plain_content p cs" "cs \<noteq> []"
  shows "hd cs \<noteq> c_newline" "hd cs \<noteq> c_EOF" "hd cs \<noteq> 0"
  using assms by (cases cs; simp)+

text \<open>
  One pass of the loop that stores its character: the character does not close the
  literal, is neither null nor \<open>0xFF\<close>, and the one after it is not a newline.
\<close>

lemma extract_string_loop_store:
  assumes "wf_buffer buf" "pending buf = c # cs" "length acc \<noteq> LITERAL_STRING_MAX_SIZE"
    "fst (current_char_lookup buf) = c_bslash \<or> c \<noteq> c_dquote" "c \<noteq> 0" "c \<noteq> c_EOF"
    "c \<noteq> c_newline" "cs = [] \<or> (hd cs \<noteq> c_newline \<and> hd cs \<noteq> c_EOF)"
  shows "\<exists>b. extract_string_loop buf acc = extract_string_loop b (acc @ [c]) \<and> wf_buffer b
           \<and> pending b = cs \<and> current_char_lookup b = (c, b)
           \<and> current_line b = current_line buf"
proof -
  from assms(1,2,7) obtain b where b: "next_char buf = (c, b)" "wf_buffer b" "pending b = cs"
    "current_char_lookup b = (c, b)" "current_line b = current_line buf"
    by (auto elim: next_char_Cons)
  have la: "\<exists>h. next_char_lookup b = (h, b) \<and> h \<noteq> c_newline"
  proof (cases cs)
    case Nil
    with b show ?thesis by (simp add: next_char_lookup_Nil)
  next
    case (Cons h hs)
    with assms(8) b show ?thesis by (simp add: next_char_lookup_Cons)
  qed
  then obtain h where h: "next_char_lookup b = (h, b)" "h \<noteq> c_newline" by blast
  have "extract_string_loop buf acc = extract_string_loop b (acc @ [c])"
    using assms(3,4,5,6) b(1) h
    by (subst extract_string_loop.simps, subst current_char_lookup_same) auto
  with b show ?thesis by blast
qed

lemma extract_string_loop_plain:
  assumes "wf_buffer buf" "pending buf = pre @ rest"
    "plain_content (fst (current_char_lookup buf)) pre"
    "length acc + length pre \<le> LITERAL_STRING_MAX_SIZE"
    "rest = [] \<or> (hd rest \<noteq> c_newline \<and> hd rest \<noteq> c_EOF)"
  shows "\<exists>b. extract_string_loop buf acc = extract_string_loop b (acc @ pre) \<and> wf_buffer b
           \<and> pending b = rest
           \<and> fst (current_char_lookup b) = last (fst (current_char_lookup buf) # pre)
           \<and> current_line b = current_line buf"
  using assms
proof (induction pre arbitrary: buf acc)
  case Nil
  then show ?case by auto
next
  case (Cons c pre)
  from Cons.prems(3) have c: "fst (current_char_lookup buf) = c_bslash \<or> c \<noteq> c_dquote"
    "c \<noteq> 0" "c \<noteq> c_EOF" "c \<noteq> c_newline" and pl: "plain_content c pre"
    by simp_all
  have nx: "pre @ rest = [] \<or> (hd (pre @ rest) \<noteq> c_newline \<and> hd (pre @ rest) \<noteq> c_EOF)"
    using Cons.prems(5) plain_content_hd [OF pl] by (cases pre) auto
  from Cons.prems(4) have len: "length acc \<noteq> LITERAL_STRING_MAX_SIZE"
    "length (acc @ [c]) + length pre \<le> LITERAL_STRING_MAX_SIZE" by simp_all
  from Cons.prems(2) have p: "pending buf = c # (pre @ rest)" by simp
  from extract_string_loop_store [OF Cons.prems(1) p len(1) c nx]
  obtain b1 where b1: "extract_string_loop buf acc = extract_string_loop b1 (acc @ [c])"
    "wf_buffer b1" "pending b1 = pre @ rest" "current_char_lookup b1 = (c, b1)"
    "current_line b1 = current_line buf"
    by blast
  from pl b1(4) have pl1: "plain_content (fst (current_char_lookup b1)) pre" by simp
  from Cons.IH [OF b1(2) b1(3) pl1 len(2) Cons.prems(5)]
  obtain b where "extract_string_loop b1 (acc @ [c]) = extract_string_loop b ((acc @ [c]) @ pre)"
    "wf_buffer b" "pending b = rest"
    "fst (current_char_lookup b) = last (fst (current_char_lookup b1) # pre)"
    "current_line b = current_line b1"
    by blast
  with b1 show ?case by auto
qed

text \<open>A closing quote after plain content ends the literal with that content.\<close>

lemma extract_string_loop_accept:
  assumes "wf_buffer buf" "pending buf = pre @ c_dquote # rest"
    "plain_content (fst (current_char_lookup buf)) pre"
    "last (fst (current_char_lookup buf) # pre) \<noteq> c_bslash"
    "length acc + length pre < LITERAL_STRING_MAX_SIZE"
  shows "\<exists>b. extract_string_loop buf acc = Some (Inr (acc @ pre, b)) \<and> wf_buffer b
           \<and> pending b = rest \<and> current_line b = current_line buf"
proof -
  from assms(5) have le: "length acc + length pre \<le> LITERAL_STRING_MAX_SIZE" by simp
  from extract_string_loop_plain [OF assms(1,2,3) le]
  obtain b1 where b1: "extract_string_loop buf acc = extract_string_loop b1 (acc @ pre)"
    "wf_buffer b1" "pending b1 = c_dquote # rest"
    "fst (current_char_lookup b1) = last (fst (current_char_lookup buf) # pre)"
    "current_line b1 = current_line buf"
    by auto
  from b1(2,3) obtain b where b: "next_char b1 = (c_dquote, b)" "wf_buffer b"
    "pending b = rest" "current_line b = current_line b1"
    by (auto elim: next_char_Cons)
  have "extract_string_loop b1 (acc @ pre) = Some (Inr (acc @ pre, b))"
    using assms(4,5) b1(4) b(1)
    by (subst extract_string_loop.simps, subst current_char_lookup_same) simp
  with b1 b show ?thesis by auto
qed

text \<open>After 1024 stored characters the loop exits before it reads the next one.\<close>

lemma extract_string_loop_too_long:
  assumes "wf_buffer buf" "pending buf = pre @ rest"
    "plain_content (fst (current_char_lookup buf)) pre"
    "length acc + length pre = LITERAL_STRING_MAX_SIZE"
    "rest = [] \<or> (hd rest \<noteq> c_newline \<and> hd rest \<noteq> c_EOF)"
  shows "extract_string_loop buf acc = Some (Inl LEXER_ERROR_STRING_LITERAL_TOO_LONG)"
proof -
  from assms(4) have le: "length acc + length pre \<le> LITERAL_STRING_MAX_SIZE" by simp
  from extract_string_loop_plain [OF assms(1,2,3) le assms(5)]
  obtain b1 where b1: "extract_string_loop buf acc = extract_string_loop b1 (acc @ pre)"
    by auto
  have "extract_string_loop b1 (acc @ pre) = Some (Inl LEXER_ERROR_STRING_LITERAL_TOO_LONG)"
    using assms(4) by (subst extract_string_loop.simps) simp
  with b1 show ?thesis by simp
qed

text \<open>The pass of the scanner that starts at an opening quote.\<close>

lemma lexer_iteration_string:
  assumes "wf_buffer buf" "pending buf = c_dquote # cs"
  shows "\<exists>b1. wf_buffer b1 \<and> pending b1 = cs \<and> current_char_lookup b1 = (c_dquote, b1)
            \<and> current_line b1 = current_line buf
            \<and> lexer_iteration buf out =
                (case extract_string b1 of
                   None \<Rightarrow> None
                 | Some (Inl e) \<Rightarrow> Some (Inl e)
                 | Some (Inr (text, b3)) \<Rightarrow>
                     Some (Inr (Continue b3
                       (out @ [Token (current_line buf) ''string'' (Some text)]))))"
proof -
  from assms obtain b1 where b1: "next_char buf = (c_dquote, b1)" "wf_buffer b1"
    "pending b1 = cs" "current_char_lookup b1 = (c_dquote, b1)"
    "current_line b1 = current_line buf"
    by (auto elim: next_char_Cons)
  have rc: "remove_comments b1 = Some (False, b1)"
    using b1(4) by (rule remove_comments_other) simp_all
  have "lexer_iteration buf out =
      (case extract_string b1 of
         None \<Rightarrow> None
       | Some (Inl e) \<Rightarrow> Some (Inl e)
       | Some (Inr (text, b3)) \<Rightarrow>
           Some (Inr (Continue b3 (out @ [Token (current_line buf) ''string'' (Some text)]))))"
    using b1(1,5) rc
    by (simp add: lexer_iteration_def iswhitespace_def split: option.splits sum.splits)
  with b1 show ?thesis by blast
qed

lemmas scanner_eval =
  lexer_def main_status_def init_buffer_def fread_content_def INPUT_FILE_BLOCK_SIZE_def
  lexer_loop.simps lexer_iteration_def classify_general_name_def
  next_char_def next_char_lookup_def current_char_lookup_def
  iswhitespace_def isname_def c_isalnum_def c_isdigit_def c_isupper_def c_islower_def
  c_tolower_def remove_comments_def remove_comments_line_loop.simps
  remove_comments_block_loop.simps extract_string_def extract_string_loop.simps
  extract_general_name_def extract_general_name_loop.simps extract_terminal_def
  check_keyword_def keywords_array_def check_integer_def cstr_def
  LITERAL_STRING_MAX_SIZE_def GENERAL_NAME_MAX_SIZE_def Let_def

lemma after_opening_quote:
  obtains b where "next_char (init_buffer (c_dquote # cs)) = (c_dquote, b)" "wf_buffer b"
    "pending b = cs" "current_char_lookup b = (c_dquote, b)" "current_line b = 1"
  using next_char_Cons [OF wf_init_buffer pending_init_buffer, of c_dquote cs]
  by (auto simp: line_init_buffer)

text \<open>
  Claim C3, as the code has it. The literal \<^verbatim>\<open>"a\"b"\<close> is not ended by the quote
  that follows the backslash; the scanner prints one string token whose text is the four
  characters between the outer quotes, the backslash included.
\<close>

theorem escaped_quote_kept:
  assumes "wf_buffer buf"
    "pending buf = [c_dquote, 0x61, c_bslash, c_dquote, 0x62, c_dquote] @ rest"
  shows "\<exists>b. lexer_iteration buf out
                = Some (Inr (Continue b (out @ [Token (current_line buf) ''string''
                                                   (Some [0x61, c_bslash, c_dquote, 0x62])])))
             \<and> wf_buffer b \<and> pending b = rest"
proof -
  from assms(2) have p: "pending buf = c_dquote # ([0x61, c_bslash, c_dquote, 0x62] @ c_dquote # rest)"
    by simp
  from lexer_iteration_string [OF assms(1) p, of out]
  obtain b1 where b1: "wf_buffer b1" "pending b1 = [0x61, c_bslash, c_dquote, 0x62] @ c_dquote # rest"
    "current_char_lookup b1 = (c_dquote, b1)"
    "lexer_iteration buf out =
       (case extract_string b1 of
          None \<Rightarrow> None
        | Some (Inl e) \<Rightarrow> Some (Inl e)
        | Some (Inr (text, b3)) \<Rightarrow>
            Some (Inr (Continue b3 (out @ [Token (current_line buf) ''string'' (Some text)]))))"
    by blast
  from extract_string_loop_accept [OF b1(1,2), of "[]"] b1(3)
  obtain b where "extract_string b1 = Some (Inr ([0x61, c_bslash, c_dquote, 0x62], b))"
    "wf_buffer b" "pending b = rest"
    by (auto simp: extract_string_def LITERAL_STRING_MAX_SIZE_def)
  with b1(4) show ?thesis by simp
qed

theorem escaped_quote_kept_witness:
  "\<exists>b. lexer_iteration (init_buffer ([c_dquote, 0x61, c_bslash, c_dquote, 0x62, c_dquote] @ [0x3B])) []
         = Some (Inr (Continue b [Token 1 ''string'' (Some [0x61, c_bslash, c_dquote, 0x62])]))
       \<and> wf_buffer b \<and> pending b = [0x3B]"
  using escaped_quote_kept [of "init_buffer ([c_dquote, 0x61, c_bslash, c_dquote, 0x62, c_dquote] @ [0x3B])"
      "[0x3B]" "[]"]
  by (simp add: wf_init_buffer pending_init_buffer line_init_buffer)

theorem escaped_quote_text_counterexample:
  "lexer [c_dquote, 0x61, c_bslash, c_dquote, 0x62, c_dquote]
     = Some (Inr [Token 1 ''string'' (Some [0x61, c_bslash, c_dquote, 0x62])])
   \<and> lexer [c_dquote, 0x61, c_bslash, c_dquote, 0x62, c_dquote]
     \<noteq> Some (Inr [Token 1 ''string'' (Some [0x61, c_dquote, 0x62])])"
  by (simp add: scanner_eval)

text \<open>
  The longest content that \<^verbatim>\<open>extract_string\<close> accepts has 1023 characters: plain
  content before a closing quote is the text of the literal when it is shorter than
  1024, and exits with code 4 otherwise.
\<close>

lemma extract_string_plain_bound:
  assumes "wf_buffer buf" "pending buf = cs @ c_dquote # rest"
    "plain_content (fst (current_char_lookup buf)) cs"
    "last (fst (current_char_lookup buf) # cs) \<noteq> c_bslash"
  shows "if length cs < LITERAL_STRING_MAX_SIZE
         then \<exists>b. extract_string buf = Some (Inr (cs, b)) \<and> wf_buffer b \<and> pending b = rest
         else extract_string buf = Some (Inl LEXER_ERROR_STRING_LITERAL_TOO_LONG)"
proof (cases "length cs < LITERAL_STRING_MAX_SIZE")
  case True
  with extract_string_loop_accept [OF assms, of "[]"] show ?thesis
    by (auto simp: extract_string_def)
next
  case False
  define pre where "pre = take LITERAL_STRING_MAX_SIZE cs"
  define post where "post = drop LITERAL_STRING_MAX_SIZE cs"
  have cs: "cs = pre @ post" by (simp add: pre_def post_def)
  from False have len: "length ([] :: byte list) + length pre = LITERAL_STRING_MAX_SIZE"
    by (simp add: pre_def)
  from assms(3) have pl: "plain_content (fst (current_char_lookup buf)) pre"
    and pp: "plain_content (last (fst (current_char_lookup buf) # pre)) post"
    by (simp_all add: cs plain_content_append)
  from assms(2) have p: "pending buf = pre @ (post @ c_dquote # rest)" by (simp add: cs)
  have "post @ c_dquote # rest = [] \<or> (hd (post @ c_dquote # rest) \<noteq> c_newline
      \<and> hd (post @ c_dquote # rest) \<noteq> c_EOF)"
    using plain_content_hd [OF pp] by (cases post) auto
  from extract_string_loop_too_long [OF assms(1) p pl len this] False show ?thesis
    by (simp add: extract_string_def)
qed

text \<open>
  Claim C4 (a string literal whose content has at most 1024 bytes is extracted in full,
  without a length error), at the literal of 1024 letters \<^verbatim>\<open>a\<close>: its content does
  not exceed the maximum, and the scanner exits with code 4.
\<close>

lemma plain_content_replicate:
  assumes "c \<noteq> c_dquote" "c \<noteq> 0" "c \<noteq> c_EOF" "c \<noteq> c_newline"
  shows "plain_content p (replicate n c)"
  using assms by (induction n arbitrary: p) simp_all

theorem string_of_1024_rejected:
  "length (replicate 1024 (0x61 :: byte)) = LITERAL_STRING_MAX_SIZE
   \<and> lexer (c_dquote # replicate 1024 0x61 @ [c_dquote])
       = Some (Inl LEXER_ERROR_STRING_LITERAL_TOO_LONG)
   \<and> main_status (c_dquote # replicate 1024 0x61 @ [c_dquote]) = Some 4"
proof -
  let ?f = "c_dquote # replicate 1024 0x61 @ [c_dquote]"
  from lexer_iteration_string [OF wf_init_buffer pending_init_buffer, of "replicate 1024 0x61 @ [c_dquote]" "[]"]
  obtain b1 where b1: "wf_buffer b1" "pending b1 = replicate 1024 0x61 @ [c_dquote]"
    "current_char_lookup b1 = (c_dquote, b1)"
    "lexer_iteration (init_buffer ?f) [] =
       (case extract_string b1 of
          None \<Rightarrow> None
        | Some (Inl e) \<Rightarrow> Some (Inl e)
        | Some (Inr (text, b3)) \<Rightarrow>
            Some (Inr (Continue b3 ([] @ [Token (current_line (init_buffer ?f)) ''string'' (Some text)]))))"
    by blast
  have "extract_string b1 = Some (Inl LEXER_ERROR_STRING_LITERAL_TOO_LONG)"
    unfolding extract_string_def
    by (rule extract_string_loop_too_long [OF b1(1,2)])
       (simp_all add: plain_content_replicate LITERAL_STRING_MAX_SIZE_def)
  with b1(4) have "lexer_iteration (init_buffer ?f) [] = Some (Inl LEXER_ERROR_STRING_LITERAL_TOO_LONG)"
    by simp
  then have "lexer ?f = Some (Inl LEXER_ERROR_STRING_LITERAL_TOO_LONG)"
    unfolding lexer_def by (rule lexer_loop_error)
  then show ?thesis by (simp add: main_status_def LITERAL_STRING_MAX_SIZE_def)
qed

lemma extract_string_loop_null_or_end:
  assumes "wf_buffer buf" "plain_content (fst (current_char_lookup buf)) pre"
    "length acc + length pre < LITERAL_STRING_MAX_SIZE"
    "pending buf = pre \<or> (\<exists>rest. pending buf = pre @ 0 # rest)"
  shows "extract_string_loop buf acc = Some (Inl LEXER_ERROR_INVALID_STRING_CHARACTER)"
proof -
  from assms(3) have le: "length acc + length pre \<le> LITERAL_STRING_MAX_SIZE"
    and ne: "length (acc @ pre) \<noteq> LITERAL_STRING_MAX_SIZE" by simp_all
  from assms(4) obtain rest where rest: "pending buf = pre @ rest"
    "rest = [] \<or> (\<exists>r. rest = 0 # r)" by auto
  then have "rest = [] \<or> (hd rest \<noteq> c_newline \<and> hd rest \<noteq> c_EOF)" by auto
  from extract_string_loop_plain [OF assms(1) rest(1) assms(2) le this]
  obtain b where b: "extract_string_loop buf acc = extract_string_loop b (acc @ pre)"
    "wf_buffer b" "pending b = rest"
    by auto
  from rest(2) b(2,3) obtain c b' where "next_char b = (c, b')" "c = c_EOF \<or> c = 0"
    by (auto elim: next_char_Nil next_char_Cons)
  then have "extract_string_loop b (acc @ pre) = Some (Inl LEXER_ERROR_INVALID_STRING_CHARACTER)"
    using ne by (subst extract_string_loop.simps, subst current_char_lookup_same) auto
  with b(1) show ?thesis by simp
qed

text \<open>
  Claim C6, as the code has it. The first fatal condition ends the scan, so a null byte
  or the end of the input makes string extraction exit with code 8 when nothing fatal
  comes before it. Take the loop of \<^verbatim>\<open>extract_string\<close> in any state (any buffer, any
  text \<open>acc\<close> stored so far), followed by bytes \<open>pre\<close> that hold no closing quote, no
  newline and no byte \<open>0xFF\<close>, with fewer than 1024 characters in \<open>acc\<close> and \<open>pre\<close>
  together, and then by a null byte or by the end of the input: string extraction exits
  with code 8. With \<open>pre = []\<close> this is the pass of the loop that reads the null byte
  or finds the end of the input; with \<open>acc = []\<close> it is \<^verbatim>\<open>extract_string\<close> itself.
\<close>

theorem string_null_or_end:
  assumes "wf_buffer buf" "plain_content (fst (current_char_lookup buf)) pre"
    "length acc + length pre < LITERAL_STRING_MAX_SIZE"
    "pending buf = pre \<or> (\<exists>rest. pending buf = pre @ 0 # rest)"
  shows "extract_string_loop buf acc = Some (Inl LEXER_ERROR_INVALID_STRING_CHARACTER)
         \<and> extract_string buf = Some (Inl LEXER_ERROR_INVALID_STRING_CHARACTER)
         \<and> exit_code LEXER_ERROR_INVALID_STRING_CHARACTER = 8"
proof -
  from assms(3) have "length ([] :: byte list) + length pre < LITERAL_STRING_MAX_SIZE" by simp
  from extract_string_loop_null_or_end [OF assms(1,2) this assms(4)]
    extract_string_loop_null_or_end [OF assms]
  show ?thesis by (simp add: extract_string_def)
qed

theorem string_null_or_end_witness:
  "(\<exists>b. next_char (init_buffer (c_dquote # cstr ''abc'')) = (c_dquote, b)
        \<and> extract_string b = Some (Inl LEXER_ERROR_INVALID_STRING_CHARACTER))
   \<and> (\<exists>b. next_char (init_buffer (c_dquote # cstr ''ab'' @ 0 # cstr ''c'' @ [c_dquote]))
             = (c_dquote, b)
        \<and> extract_string b = Some (Inl LEXER_ERROR_INVALID_STRING_CHARACTER))"
proof -
  obtain b1 where b1: "next_char (init_buffer (c_dquote # cstr ''abc'')) = (c_dquote, b1)"
    "wf_buffer b1" "pending b1 = cstr ''abc''" "current_char_lookup b1 = (c_dquote, b1)"
    by (rule after_opening_quote)
  have 1: "extract_string b1 = Some (Inl LEXER_ERROR_INVALID_STRING_CHARACTER)"
    using string_null_or_end [of b1 "cstr ''abc''" "[]"] b1
    by (simp add: cstr_def LITERAL_STRING_MAX_SIZE_def)
  obtain b2 where b2: "next_char (init_buffer (c_dquote # cstr ''ab'' @ 0 # cstr ''c'' @ [c_dquote]))
       = (c_dquote, b2)"
    "wf_buffer b2" "pending b2 = cstr ''ab'' @ 0 # cstr ''c'' @ [c_dquote]"
    "current_char_lookup b2 = (c_dquote, b2)"
    by (rule after_opening_quote)
  have 2: "extract_string b2 = Some (Inl LEXER_ERROR_INVALID_STRING_CHARACTER)"
    using string_null_or_end [of b2 "cstr ''ab''" "[]"] b2
    by (simp add: cstr_def LITERAL_STRING_MAX_SIZE_def)
  from b1(1) 1 b2(1) 2 show ?thesis by blast
qed

text \<open>
  Claim C6, as stated, fails where a raw newline comes first: a literal that is still
  open at the end of the input, and a literal that holds a null byte, both with a
  newline before, exit with code 9.
\<close>

theorem string_newline_before_end:
  "main_status (c_dquote # cstr ''abc'' @ [c_newline]) = Some 9
   \<and> main_status (c_dquote # cstr ''a'' @ [c_newline, 0, c_dquote]) = Some 9"
  by (simp add: scanner_eval)

lemma extract_string_loop_raw_newline:
  assumes "wf_buffer buf" "plain_content (fst (current_char_lookup buf)) (pre @ [c])"
    "length acc + length pre < LITERAL_STRING_MAX_SIZE"
    "c \<noteq> c_bslash" "pending buf = pre @ c # c_newline # rest"
  shows "extract_string_loop buf acc = Some (Inl LEXER_ERROR_NON_ESCAPED_NEWLINE)"
proof -
  from assms(2) have pl: "plain_content (fst (current_char_lookup buf)) pre"
    and c: "last (fst (current_char_lookup buf) # pre) = c_bslash \<or> c \<noteq> c_dquote"
      "c \<noteq> 0" "c \<noteq> c_EOF" "c \<noteq> c_newline"
    by (simp_all add: plain_content_append)
  from assms(3) have le: "length acc + length pre \<le> LITERAL_STRING_MAX_SIZE"
    and ne: "length (acc @ pre) \<noteq> LITERAL_STRING_MAX_SIZE" by simp_all
  from assms(5) have p: "pending buf = pre @ (c # c_newline # rest)" by simp
  from extract_string_loop_plain [OF assms(1) p pl le] c
  obtain b where b: "extract_string_loop buf acc = extract_string_loop b (acc @ pre)"
    "wf_buffer b" "pending b = c # c_newline # rest"
    "fst (current_char_lookup b) = last (fst (current_char_lookup buf) # pre)"
    by auto
  from b(2,3) obtain b1 where b1: "next_char b = (c, b1)" "wf_buffer b1"
    "pending b1 = c_newline # rest"
    by (auto elim: next_char_Cons)
  then have la: "next_char_lookup b1 = (c_newline, b1)"
    by (simp add: next_char_lookup_Cons)
  have "extract_string_loop b (acc @ pre) = Some (Inl LEXER_ERROR_NON_ESCAPED_NEWLINE)"
    using ne c b(4) b1(1) la assms(4)
    by (subst extract_string_loop.simps, subst current_char_lookup_same) auto
  with b(1) show ?thesis by simp
qed

lemma extract_string_loop_continuation:
  assumes "wf_buffer buf" "plain_content (fst (current_char_lookup buf)) pre"
    "pending buf = pre @ c_bslash # c_newline # rest"
    "length acc + length pre < LITERAL_STRING_MAX_SIZE"
  shows "\<exists>b. extract_string_loop buf acc = extract_string_loop b (acc @ pre) \<and> wf_buffer b
           \<and> pending b = rest \<and> current_char_lookup b = (c_newline, b)
           \<and> current_line b = current_line buf + 1"
proof -
  from assms(4) have le: "length acc + length pre \<le> LITERAL_STRING_MAX_SIZE"
    and ne: "length (acc @ pre) \<noteq> LITERAL_STRING_MAX_SIZE" by simp_all
  from assms(3) have p: "pending buf = pre @ (c_bslash # c_newline # rest)" by simp
  from extract_string_loop_plain [OF assms(1) p assms(2) le]
  obtain b where b: "extract_string_loop buf acc = extract_string_loop b (acc @ pre)"
    "wf_buffer b" "pending b = c_bslash # c_newline # rest"
    "current_line b = current_line buf"
    by auto
  from b(2,3) obtain b1 where b1: "next_char b = (c_bslash, b1)" "wf_buffer b1"
    "pending b1 = c_newline # rest" "current_line b1 = current_line b"
    by (auto elim: next_char_Cons)
  then have la: "next_char_lookup b1 = (c_newline, b1)"
    by (simp add: next_char_lookup_Cons)
  from b1(2,3) obtain b2 where b2: "next_char b1 = (c_newline, b2)" "wf_buffer b2"
    "pending b2 = rest" "current_char_lookup b2 = (c_newline, b2)"
    "current_line b2 = current_line b1 + 1"
    by (auto elim: next_char_Cons)
  have "extract_string_loop b (acc @ pre) = extract_string_loop b2 (acc @ pre)"
    using ne b1(1) la b2(1)
    by (subst extract_string_loop.simps, subst current_char_lookup_same) auto
  with b b1 b2 show ?thesis by auto
qed

text \<open>
  The newline that the loop finds with its lookahead. Let the bytes of the literal before
  a newline, read by the loop of \<^verbatim>\<open>extract_string\<close> with fewer than 1024 characters
  stored in all, hold no closing quote, no null byte, no byte \<open>0xFF\<close> and no earlier
  newline, and let \<open>c\<close> be the last of them. If \<open>c\<close> is not a backslash, string
  extraction exits with code 9. If \<open>c\<close> is a backslash, the newline is consumed,
  neither of the two is stored, and scanning goes on: with plain content \<open>post\<close> up to
  the closing quote, the text of the literal is the content before the backslash followed
  by \<open>post\<close>, and the line counter is one higher.
\<close>

lemma string_newline:
  assumes "wf_buffer buf" "plain_content (fst (current_char_lookup buf)) (pre @ [c])"
    "length acc + length pre < LITERAL_STRING_MAX_SIZE"
  shows "(c \<noteq> c_bslash \<and> pending buf = pre @ c # c_newline # rest
          \<longrightarrow> extract_string_loop buf acc = Some (Inl LEXER_ERROR_NON_ESCAPED_NEWLINE)
              \<and> exit_code LEXER_ERROR_NON_ESCAPED_NEWLINE = 9)
       \<and> (c = c_bslash \<and> pending buf = pre @ c # c_newline # post @ c_dquote # rest
          \<and> plain_content c_newline post \<and> last (c_newline # post) \<noteq> c_bslash
          \<and> length acc + length pre + length post < LITERAL_STRING_MAX_SIZE
          \<longrightarrow> (\<exists>b. extract_string_loop buf acc = Some (Inr (acc @ pre @ post, b))
                   \<and> wf_buffer b \<and> pending b = rest
                   \<and> current_line b = current_line buf + 1))"
proof (intro conjI impI)
  assume "c \<noteq> c_bslash \<and> pending buf = pre @ c # c_newline # rest"
  with extract_string_loop_raw_newline [OF assms]
  show "extract_string_loop buf acc = Some (Inl LEXER_ERROR_NON_ESCAPED_NEWLINE)" by simp
next
  show "exit_code LEXER_ERROR_NON_ESCAPED_NEWLINE = 9" by simp
next
  assume a: "c = c_bslash \<and> pending buf = pre @ c # c_newline # post @ c_dquote # rest
          \<and> plain_content c_newline post \<and> last (c_newline # post) \<noteq> c_bslash
          \<and> length acc + length pre + length post < LITERAL_STRING_MAX_SIZE"
  from assms(2) have pl: "plain_content (fst (current_char_lookup buf)) pre"
    by (simp add: plain_content_append)
  from a have p: "pending buf = pre @ c_bslash # c_newline # (post @ c_dquote # rest)" by simp
  from extract_string_loop_continuation [OF assms(1) pl p assms(3)]
  obtain b1 where b1: "extract_string_loop buf acc = extract_string_loop b1 (acc @ pre)"
    "wf_buffer b1" "pending b1 = post @ c_dquote # rest"
    "current_char_lookup b1 = (c_newline, b1)" "current_line b1 = current_line buf + 1"
    by blast
  from a b1(4) have h: "plain_content (fst (current_char_lookup b1)) post"
    "last (fst (current_char_lookup b1) # post) \<noteq> c_bslash"
    "length (acc @ pre) + length post < LITERAL_STRING_MAX_SIZE"
    by simp_all
  from extract_string_loop_accept [OF b1(2,3) h]
  obtain b where "extract_string_loop b1 (acc @ pre) = Some (Inr ((acc @ pre) @ post, b))"
    "wf_buffer b" "pending b = rest" "current_line b = current_line b1"
    by blast
  with b1(1,5)
  show "\<exists>b. extract_string_loop buf acc = Some (Inr (acc @ pre @ post, b))
          \<and> wf_buffer b \<and> pending b = rest \<and> current_line b = current_line buf + 1"
    by auto
qed

lemma string_newline_example:
  "(\<exists>b. next_char (init_buffer (c_dquote # cstr ''ab'' @ c_newline # cstr ''c'' @ [c_dquote]))
           = (c_dquote, b)
        \<and> extract_string_loop b [] = Some (Inl LEXER_ERROR_NON_ESCAPED_NEWLINE))
   \<and> (\<exists>b b'. next_char (init_buffer (c_dquote # cstr ''a'' @ c_bslash # c_newline # cstr ''b''
                                        @ c_dquote # cstr '' x''))
             = (c_dquote, b)
        \<and> extract_string_loop b [] = Some (Inr (cstr ''ab'', b'))
        \<and> pending b' = cstr '' x'' \<and> current_line b' = 2)"
proof -
  obtain b1 where b1: "next_char (init_buffer (c_dquote # cstr ''ab'' @ c_newline # cstr ''c'' @ [c_dquote]))
       = (c_dquote, b1)"
    "wf_buffer b1" "pending b1 = cstr ''ab'' @ c_newline # cstr ''c'' @ [c_dquote]"
    "current_char_lookup b1 = (c_dquote, b1)"
    by (rule after_opening_quote)
  have 1: "extract_string_loop b1 [] = Some (Inl LEXER_ERROR_NON_ESCAPED_NEWLINE)"
    using string_newline [of b1 "cstr ''a''" "0x62" "[]" "cstr ''c'' @ [c_dquote]"] b1
    by (simp add: cstr_def LITERAL_STRING_MAX_SIZE_def)
  obtain b2 where b2: "next_char (init_buffer (c_dquote # cstr ''a'' @ c_bslash # c_newline # cstr ''b''
                                        @ c_dquote # cstr '' x''))
       = (c_dquote, b2)"
    "wf_buffer b2" "pending b2 = cstr ''a'' @ c_bslash # c_newline # cstr ''b'' @ c_dquote # cstr '' x''"
    "current_char_lookup b2 = (c_dquote, b2)" "current_line b2 = 1"
    by (rule after_opening_quote)
  have 2: "\<exists>b'. extract_string_loop b2 [] = Some (Inr (cstr ''ab'', b'))
        \<and> pending b' = cstr '' x'' \<and> current_line b' = 2"
    using string_newline [of b2 "cstr ''a''" c_bslash "[]" "cstr '' x''" "cstr ''b''"] b2
    by (auto simp add: cstr_def LITERAL_STRING_MAX_SIZE_def)
  from b1(1) 1 b2(1) 2 show ?thesis by blast
qed

text \<open>
  Claim C5 (a newline inside a string literal that does not directly follow a backslash
  makes string extraction exit with code 9), at the literal that starts with a newline:
  the newline is read as the current character, not found by the lookahead, and is
  stored; the scanner prints a string token whose text starts with the newline, and ends
  with status 0.
\<close>

theorem string_leading_newline_accepted:
  "lexer (c_dquote # c_newline # cstr ''x'' @ [c_dquote])
     = Some (Inr [Token 1 ''string'' (Some (c_newline # cstr ''x''))])
   \<and> main_status (c_dquote # c_newline # cstr ''x'' @ [c_dquote]) = Some 0"
  by (simp add: scanner_eval)

section \<open>Terminals\<close>

lemma next_char_lookup_fst:
  assumes "wf_buffer buf"
  shows "fst (next_char_lookup buf) = (if pending buf = [] then c_EOF else hd (pending buf))"
proof (cases "pending buf")
  case Nil
  with assms show ?thesis by (simp add: next_char_lookup_Nil)
next
  case (Cons c cs)
  show ?thesis
  proof (cases "c = c_EOF")
    case True
    with assms Cons obtain b where "next_char_lookup buf = (c_EOF, b)"
      by (auto elim: next_char_lookup_EOF)
    with Cons True show ?thesis by simp
  next
    case False
    with assms Cons show ?thesis by (simp add: next_char_lookup_Cons)
  qed
qed

lemma lookup_then_next:
  assumes "wf_buffer buf" "pending buf = c # rest" "c \<noteq> c_EOF"
  obtains b where "next_char_lookup buf = (c, buf)" "snd (next_char buf) = b" "wf_buffer b"
    "pending b = rest"
  using assms next_char_lookup_Cons [OF assms] next_char_Cons [OF assms(1,2)]
  by (metis snd_conv)

text \<open>
  Terminal extraction at the trigger characters \<open><\<close> and \<open>=\<close>. At \<open><\<close> it gives
  \<open>larrow\<close> and consumes the next character when that is \<open>-\<close>, gives \<open>le\<close> and
  consumes it when that is \<open>=\<close>, and otherwise gives \<open>lt\<close> without a call of
  \<^verbatim>\<open>next_char\<close>: the buffer is the one that the lookahead leaves, with the cursor, the
  count of valid bytes and the line counter where they were. At \<open>=\<close> it gives
  \<open>rarrow\<close> and consumes the next character when that is \<open>>\<close>, and otherwise gives
  \<open>equals\<close>, again without a call of \<^verbatim>\<open>next_char\<close>.
\<close>

lemma extract_terminal_lookahead:
  assumes "wf_buffer buf"
  shows "(fst (current_char_lookup buf) = c_less \<and> pending buf = c_minus # rest
          \<longrightarrow> (\<exists>b. extract_terminal buf = (Some ''larrow'', b) \<and> wf_buffer b
                   \<and> pending b = rest))
       \<and> (fst (current_char_lookup buf) = c_less \<and> pending buf = c_equal # rest
          \<longrightarrow> (\<exists>b. extract_terminal buf = (Some ''le'', b) \<and> wf_buffer b
                   \<and> pending b = rest))
       \<and> (fst (current_char_lookup buf) = c_less
            \<and> (pending buf = [] \<or> (hd (pending buf) \<noteq> c_minus \<and> hd (pending buf) \<noteq> c_equal))
          \<longrightarrow> extract_terminal buf = (Some ''lt'', snd (next_char_lookup buf))
              \<and> current_position (snd (extract_terminal buf)) = current_position buf
              \<and> total_size (snd (extract_terminal buf)) = total_size buf
              \<and> current_line (snd (extract_terminal buf)) = current_line buf)
       \<and> (fst (current_char_lookup buf) = c_equal \<and> pending buf = c_greater # rest
          \<longrightarrow> (\<exists>b. extract_terminal buf = (Some ''rarrow'', b) \<and> wf_buffer b
                   \<and> pending b = rest))
       \<and> (fst (current_char_lookup buf) = c_equal
            \<and> (pending buf = [] \<or> hd (pending buf) \<noteq> c_greater)
          \<longrightarrow> extract_terminal buf = (Some ''equals'', snd (next_char_lookup buf))
              \<and> current_position (snd (extract_terminal buf)) = current_position buf
              \<and> total_size (snd (extract_terminal buf)) = total_size buf
              \<and> current_line (snd (extract_terminal buf)) = current_line buf)"
proof (intro conjI impI)
  assume a: "fst (current_char_lookup buf) = c_less \<and> pending buf = c_minus # rest"
  then obtain b where "next_char_lookup buf = (c_minus, buf)" "snd (next_char buf) = b"
    "wf_buffer b" "pending b = rest"
    using assms by (auto elim: lookup_then_next)
  with a show "\<exists>b. extract_terminal buf = (Some ''larrow'', b) \<and> wf_buffer b \<and> pending b = rest"
    by (subst extract_terminal_def, subst current_char_lookup_same) simp
next
  assume a: "fst (current_char_lookup buf) = c_less \<and> pending buf = c_equal # rest"
  then obtain b where "next_char_lookup buf = (c_equal, buf)" "snd (next_char buf) = b"
    "wf_buffer b" "pending b = rest"
    using assms by (auto elim: lookup_then_next)
  with a show "\<exists>b. extract_terminal buf = (Some ''le'', b) \<and> wf_buffer b \<and> pending b = rest"
    by (subst extract_terminal_def, subst current_char_lookup_same) simp
next
  assume a: "fst (current_char_lookup buf) = c_equal \<and> pending buf = c_greater # rest"
  then obtain b where "next_char_lookup buf = (c_greater, buf)" "snd (next_char buf) = b"
    "wf_buffer b" "pending b = rest"
    using assms by (auto elim: lookup_then_next)
  with a show "\<exists>b. extract_terminal buf = (Some ''rarrow'', b) \<and> wf_buffer b \<and> pending b = rest"
    by (subst extract_terminal_def, subst current_char_lookup_same) simp
next
  assume a: "fst (current_char_lookup buf) = c_less
            \<and> (pending buf = [] \<or> (hd (pending buf) \<noteq> c_minus \<and> hd (pending buf) \<noteq> c_equal))"
  then have la: "fst (next_char_lookup buf) \<noteq> c_minus" "fst (next_char_lookup buf) \<noteq> c_equal"
    by (auto simp: next_char_lookup_fst [OF assms])
  have et: "extract_terminal buf = (Some ''lt'', snd (next_char_lookup buf))"
    using a la
    by (subst extract_terminal_def, subst current_char_lookup_same)
       (simp add: case_prod_beta)
  from et show "extract_terminal buf = (Some ''lt'', snd (next_char_lookup buf))" .
  from et show "current_position (snd (extract_terminal buf)) = current_position buf"
    by (simp add: next_char_lookup_def Let_def)
  from et show "total_size (snd (extract_terminal buf)) = total_size buf"
    by (simp add: next_char_lookup_def Let_def)
  from et show "current_line (snd (extract_terminal buf)) = current_line buf"
    by (simp add: next_char_lookup_def Let_def)
next
  assume a: "fst (current_char_lookup buf) = c_equal
            \<and> (pending buf = [] \<or> hd (pending buf) \<noteq> c_greater)"
  then have la: "fst (next_char_lookup buf) \<noteq> c_greater"
    by (auto simp: next_char_lookup_fst [OF assms])
  have et: "extract_terminal buf = (Some ''equals'', snd (next_char_lookup buf))"
    using a la
    by (subst extract_terminal_def, subst current_char_lookup_same)
       (simp add: case_prod_beta)
  from et show "extract_terminal buf = (Some ''equals'', snd (next_char_lookup buf))" .
  from et show "current_position (snd (extract_terminal buf)) = current_position buf"
    by (simp add: next_char_lookup_def Let_def)
  from et show "total_size (snd (extract_terminal buf)) = total_size buf"
    by (simp add: next_char_lookup_def Let_def)
  from et show "current_line (snd (extract_terminal buf)) = current_line buf"
    by (simp add: next_char_lookup_def Let_def)
qed


lemma after_first_char:
  obtains b where "next_char (init_buffer (c # cs)) = (c, b)" "wf_buffer b"
    "pending b = cs" "current_char_lookup b = (c, b)"
  using next_char_Cons [OF wf_init_buffer pending_init_buffer, of c cs]
  by auto

lemma extract_terminal_lookahead_example:
  "(\<exists>b b'. next_char (init_buffer (cstr ''<-x'')) = (c_less, b)
        \<and> extract_terminal b = (Some ''larrow'', b') \<and> pending b' = cstr ''x'')
   \<and> (\<exists>b b'. next_char (init_buffer (cstr ''<=x'')) = (c_less, b)
        \<and> extract_terminal b = (Some ''le'', b') \<and> pending b' = cstr ''x'')
   \<and> (\<exists>b. next_char (init_buffer (cstr ''<x'')) = (c_less, b)
        \<and> fst (extract_terminal b) = Some ''lt''
        \<and> current_position (snd (extract_terminal b)) = current_position b)
   \<and> (\<exists>b b'. next_char (init_buffer (cstr ''=>x'')) = (c_equal, b)
        \<and> extract_terminal b = (Some ''rarrow'', b') \<and> pending b' = cstr ''x'')
   \<and> (\<exists>b. next_char (init_buffer (cstr ''=x'')) = (c_equal, b)
        \<and> fst (extract_terminal b) = Some ''equals''
        \<and> current_position (snd (extract_terminal b)) = current_position b)"
proof -
  obtain b1 where b1: "next_char (init_buffer (c_less # cstr ''-x'')) = (c_less, b1)"
    "wf_buffer b1" "pending b1 = cstr ''-x''" "current_char_lookup b1 = (c_less, b1)"
    by (rule after_first_char)
  obtain b2 where b2: "next_char (init_buffer (c_less # cstr ''=x'')) = (c_less, b2)"
    "wf_buffer b2" "pending b2 = cstr ''=x''" "current_char_lookup b2 = (c_less, b2)"
    by (rule after_first_char)
  obtain b3 where b3: "next_char (init_buffer (c_less # cstr ''x'')) = (c_less, b3)"
    "wf_buffer b3" "pending b3 = cstr ''x''" "current_char_lookup b3 = (c_less, b3)"
    by (rule after_first_char)
  obtain b4 where b4: "next_char (init_buffer (c_equal # cstr ''>x'')) = (c_equal, b4)"
    "wf_buffer b4" "pending b4 = cstr ''>x''" "current_char_lookup b4 = (c_equal, b4)"
    by (rule after_first_char)
  obtain b5 where b5: "next_char (init_buffer (c_equal # cstr ''x'')) = (c_equal, b5)"
    "wf_buffer b5" "pending b5 = cstr ''x''" "current_char_lookup b5 = (c_equal, b5)"
    by (rule after_first_char)
  have 1: "\<exists>b'. extract_terminal b1 = (Some ''larrow'', b') \<and> pending b' = cstr ''x''"
    using extract_terminal_lookahead [OF b1(2), of "cstr ''x''"] b1(3,4)
    by (auto simp: cstr_def)
  have 2: "\<exists>b'. extract_terminal b2 = (Some ''le'', b') \<and> pending b' = cstr ''x''"
    using extract_terminal_lookahead [OF b2(2), of "cstr ''x''"] b2(3,4)
    by (auto simp: cstr_def)
  have 3: "fst (extract_terminal b3) = Some ''lt''
        \<and> current_position (snd (extract_terminal b3)) = current_position b3"
    using extract_terminal_lookahead [OF b3(2), of "[]"] b3(3,4)
    by (auto simp: cstr_def)
  have 4: "\<exists>b'. extract_terminal b4 = (Some ''rarrow'', b') \<and> pending b' = cstr ''x''"
    using extract_terminal_lookahead [OF b4(2), of "cstr ''x''"] b4(3,4)
    by (auto simp: cstr_def)
  have 5: "fst (extract_terminal b5) = Some ''equals''
        \<and> current_position (snd (extract_terminal b5)) = current_position b5"
    using extract_terminal_lookahead [OF b5(2), of "[]"] b5(3,4)
    by (auto simp: cstr_def)
  have c: "cstr ''<-x'' = c_less # cstr ''-x''" "cstr ''<=x'' = c_less # cstr ''=x''"
    "cstr ''<x'' = c_less # cstr ''x''" "cstr ''=>x'' = c_equal # cstr ''>x''"
    "cstr ''=x'' = c_equal # cstr ''x''"
    by (simp_all add: cstr_def)
  from b1(1) 1 b2(1) 2 b3(1) 3 b4(1) 4 b5(1) 5 show ?thesis
    unfolding c by blast
qed

text \<open>
  When the next pending byte is not \<open>0xFF\<close>, the lookahead leaves the buffer as it is,
  and so does terminal extraction in the two cases that consume nothing.
\<close>

lemma extract_terminal_no_consume:
  assumes "wf_buffer buf"
    "pending buf = [] \<or> hd (pending buf) \<noteq> c_EOF"
  shows "fst (current_char_lookup buf) = c_less
           \<and> (pending buf = [] \<or> (hd (pending buf) \<noteq> c_minus \<and> hd (pending buf) \<noteq> c_equal))
         \<longrightarrow> extract_terminal buf = (Some ''lt'', buf)"
    and "fst (current_char_lookup buf) = c_equal
           \<and> (pending buf = [] \<or> hd (pending buf) \<noteq> c_greater)
         \<longrightarrow> extract_terminal buf = (Some ''equals'', buf)"
proof -
  have la: "next_char_lookup buf = (if pending buf = [] then c_EOF else hd (pending buf), buf)"
  proof (cases "pending buf")
    case Nil
    with assms(1) show ?thesis by (simp add: next_char_lookup_Nil)
  next
    case (Cons c cs)
    with assms show ?thesis by (simp add: next_char_lookup_Cons)
  qed
  show "fst (current_char_lookup buf) = c_less
           \<and> (pending buf = [] \<or> (hd (pending buf) \<noteq> c_minus \<and> hd (pending buf) \<noteq> c_equal))
         \<longrightarrow> extract_terminal buf = (Some ''lt'', buf)"
    using la by (subst extract_terminal_def, subst current_char_lookup_same) auto
  show "fst (current_char_lookup buf) = c_equal
           \<and> (pending buf = [] \<or> hd (pending buf) \<noteq> c_greater)
         \<longrightarrow> extract_terminal buf = (Some ''equals'', buf)"
    using la by (subst extract_terminal_def, subst current_char_lookup_same) auto
qed

lemma init_buffer_long:
  assumes "INPUT_FILE_BLOCK_SIZE \<le> length f"
  shows "init_buffer f = \<lparr>fp_data = f, fp_pos = INPUT_FILE_BLOCK_SIZE,
           content = (\<lambda>i. if i < INPUT_FILE_BLOCK_SIZE then f ! i else 0),
           current_position = 0, total_size = INPUT_FILE_BLOCK_SIZE, current_line = 1\<rparr>"
  using assms
  by (auto simp: init_buffer_def fread_content_def Let_def min_def fun_eq_iff)

lemma lexer_iteration_space:
  assumes "current_position buf < total_size buf"
    "content buf (current_position buf) = 0x20"
  shows "lexer_iteration buf out
         = Some (Inr (Continue (buf\<lparr>current_position := current_position buf + 1\<rparr>) out))"
  using assms by (simp add: lexer_iteration_def next_char_def Let_def iswhitespace_def)

lemma lexer_loop_spaces:
  assumes "current_position buf + n \<le> total_size buf"
    "\<forall>i<n. content buf (current_position buf + i) = 0x20"
  shows "lexer_loop buf out
         = lexer_loop (buf\<lparr>current_position := current_position buf + n\<rparr>) out"
  using assms
proof (induction n arbitrary: buf)
  case 0
  show ?case by simp
next
  case (Suc n)
  let ?b = "buf\<lparr>current_position := current_position buf + 1\<rparr>"
  from Suc.prems have "current_position buf < total_size buf"
    "content buf (current_position buf) = 0x20"
    by auto
  then have "lexer_loop buf out = lexer_loop ?b out"
    by (intro lexer_loop_continue lexer_iteration_space)
  moreover have "current_position ?b + n \<le> total_size ?b"
    using Suc.prems(1) by simp
  moreover have "\<forall>i<n. content ?b (current_position ?b + i) = 0x20"
    using Suc.prems(2) by auto
  ultimately show ?case
    using Suc.IH [of ?b] by simp
qed




text \<open>
  The scanner on a file of at least 4096 bytes that starts with spaces, up to a \<open><\<close>
  followed by the byte \<open>0xFF\<close> and a \<open>-\<close>. With the \<open><\<close> as the last byte of the first
  block, the lookahead reads the byte \<open>0xFF\<close> from the file and returns before
  \<^verbatim>\<open>fsetpos\<close>: the byte is lost and the \<open>-\<close> is the next character read. With the
  \<open><\<close> one byte earlier, the byte \<open>0xFF\<close> is in the block and stays.
\<close>

lemma lexer_less_at_block_end:
  fixes F :: "byte list"
  assumes "length F = 4098" "F ! 4095 = c_less" "F ! 4096 = c_EOF"
    "drop 4096 F = [c_EOF, c_minus]" "drop 4097 F = [c_minus]" "drop 4098 F = []"
    "\<forall>i<4095. F ! i = 0x20"
  shows "lexer F = Some (Inr [Token 1 ''lt'' None, Token 1 ''minus'' None])"
    and "wf_buffer ((init_buffer F)\<lparr>current_position := 4096\<rparr>)"
    and "fst (current_char_lookup ((init_buffer F)\<lparr>current_position := 4096\<rparr>)) = c_less"
    and "pending ((init_buffer F)\<lparr>current_position := 4096\<rparr>) = [c_EOF, c_minus]"
    and "fst (extract_terminal ((init_buffer F)\<lparr>current_position := 4096\<rparr>)) = Some ''lt''"
    and "pending (snd (extract_terminal ((init_buffer F)\<lparr>current_position := 4096\<rparr>)))
         = [c_minus]"
proof -
  let ?B = "\<lparr>fp_data = F, fp_pos = 4096,
           content = (\<lambda>i. if i < 4096 then F ! i else 0),
           current_position = 0, total_size = 4096, current_line = 1\<rparr>"
  have iF: "init_buffer F = ?B"
    using init_buffer_long [of F] assms(1) by (simp add: INPUT_FILE_BLOCK_SIZE_def)
  have sF: "lexer_loop ?B [] = lexer_loop (?B\<lparr>current_position := 4095\<rparr>) []"
    using lexer_loop_spaces [of ?B 4095 "[]"] assms(7) by simp
  have "lexer_loop (?B\<lparr>current_position := 4095\<rparr>) []
      = Some (Inr [Token 1 ''lt'' None, Token 1 ''minus'' None])"
    by (simp add: assms(1-6) lexer_loop.simps lexer_iteration_def next_char_def
        next_char_lookup_def current_char_lookup_def fread_content_def
        INPUT_FILE_BLOCK_SIZE_def iswhitespace_def isname_def c_isalnum_def c_isdigit_def
        c_isupper_def c_islower_def remove_comments_def extract_terminal_def Let_def)
  with sF iF show "lexer F = Some (Inr [Token 1 ''lt'' None, Token 1 ''minus'' None])"
    by (simp only: lexer_def)
  show "wf_buffer ((init_buffer F)\<lparr>current_position := 4096\<rparr>)"
    unfolding iF by (simp add: assms(1) wf_buffer_def INPUT_FILE_BLOCK_SIZE_def)
  show "fst (current_char_lookup ((init_buffer F)\<lparr>current_position := 4096\<rparr>)) = c_less"
    unfolding iF by (simp add: assms(2) current_char_lookup_def)
  show "pending ((init_buffer F)\<lparr>current_position := 4096\<rparr>) = [c_EOF, c_minus]"
    unfolding iF by (simp add: assms(4) pending_def)
  show "fst (extract_terminal ((init_buffer F)\<lparr>current_position := 4096\<rparr>)) = Some ''lt''"
    unfolding iF
    by (simp add: assms(1-3) extract_terminal_def next_char_lookup_def
        current_char_lookup_def Let_def)
  show "pending (snd (extract_terminal ((init_buffer F)\<lparr>current_position := 4096\<rparr>)))
         = [c_minus]"
    unfolding iF
    by (simp add: assms(1-5) extract_terminal_def next_char_lookup_def
        current_char_lookup_def pending_def Let_def)
qed

lemma lexer_less_before_block_end:
  fixes G :: "byte list"
  assumes "length G = 4097" "G ! 4094 = c_less" "G ! 4095 = c_EOF"
    "\<forall>i<4094. G ! i = 0x20"
  shows "lexer G = Some (Inr [Token 1 ''lt'' None])"
proof -
  let ?B = "\<lparr>fp_data = G, fp_pos = 4096,
           content = (\<lambda>i. if i < 4096 then G ! i else 0),
           current_position = 0, total_size = 4096, current_line = 1\<rparr>"
  have iG: "init_buffer G = ?B"
    using init_buffer_long [of G] assms(1) by (simp add: INPUT_FILE_BLOCK_SIZE_def)
  have sG: "lexer_loop ?B [] = lexer_loop (?B\<lparr>current_position := 4094\<rparr>) []"
    using lexer_loop_spaces [of ?B 4094 "[]"] assms(4) by simp
  have "lexer_loop (?B\<lparr>current_position := 4094\<rparr>) [] = Some (Inr [Token 1 ''lt'' None])"
    by (simp add: assms(1-3) lexer_loop.simps lexer_iteration_def next_char_def
        next_char_lookup_def current_char_lookup_def fread_content_def
        INPUT_FILE_BLOCK_SIZE_def iswhitespace_def isname_def c_isalnum_def c_isdigit_def
        c_isupper_def c_islower_def remove_comments_def extract_terminal_def Let_def)
  with sG iG show ?thesis by (simp only: lexer_def)
qed

text \<open>
  Claim C8 (at \<open><\<close> with a lookahead other than \<open>-\<close> and \<open>=\<close>, terminal extraction
  emits \<open>lt\<close> and consumes nothing extra), at the file of 4095 spaces followed by \<open><\<close>,
  the byte \<open>0xFF\<close> and \<open>-\<close>: after the \<open><\<close> the bytes \<open>0xFF\<close> and \<open>-\<close> are pending;
  terminal extraction emits \<open>lt\<close> and only the \<open>-\<close> is pending afterwards, so the
  scanner prints \<open>lt\<close> and \<open>minus\<close>. With one space fewer the byte \<open>0xFF\<close> is not
  consumed and the scanner prints \<open>lt\<close> alone.
\<close>

theorem lookahead_at_block_end_drops_0xFF:
  "lexer (replicate 4095 0x20 @ [c_less, c_EOF, c_minus])
     = Some (Inr [Token 1 ''lt'' None, Token 1 ''minus'' None])
   \<and> lexer (replicate 4094 0x20 @ [c_less, c_EOF, c_minus])
     = Some (Inr [Token 1 ''lt'' None])
   \<and> wf_buffer ((init_buffer (replicate 4095 0x20 @ [c_less, c_EOF, c_minus]))
                  \<lparr>current_position := 4096\<rparr>)
   \<and> fst (current_char_lookup ((init_buffer (replicate 4095 0x20 @ [c_less, c_EOF, c_minus]))
                                \<lparr>current_position := 4096\<rparr>)) = c_less
   \<and> pending ((init_buffer (replicate 4095 0x20 @ [c_less, c_EOF, c_minus]))
                \<lparr>current_position := 4096\<rparr>) = [c_EOF, c_minus]
   \<and> fst (extract_terminal ((init_buffer (replicate 4095 0x20 @ [c_less, c_EOF, c_minus]))
                             \<lparr>current_position := 4096\<rparr>)) = Some ''lt''
   \<and> pending (snd (extract_terminal
                     ((init_buffer (replicate 4095 0x20 @ [c_less, c_EOF, c_minus]))
                        \<lparr>current_position := 4096\<rparr>))) = [c_minus]"
proof -
  have F: "length (replicate 4095 (0x20 :: byte) @ [c_less, c_EOF, c_minus]) = 4098"
    "(replicate 4095 0x20 @ [c_less, c_EOF, c_minus]) ! 4095 = c_less"
    "(replicate 4095 0x20 @ [c_less, c_EOF, c_minus]) ! 4096 = c_EOF"
    "drop 4096 (replicate 4095 0x20 @ [c_less, c_EOF, c_minus]) = [c_EOF, c_minus]"
    "drop 4097 (replicate 4095 0x20 @ [c_less, c_EOF, c_minus]) = [c_minus]"
    "drop 4098 (replicate 4095 (0x20 :: byte) @ [c_less, c_EOF, c_minus]) = []"
    "\<forall>i<4095. (replicate 4095 0x20 @ [c_less, c_EOF, c_minus]) ! i = (0x20 :: byte)"
    by (simp_all add: nth_append)
  have G: "length (replicate 4094 (0x20 :: byte) @ [c_less, c_EOF, c_minus]) = 4097"
    "(replicate 4094 0x20 @ [c_less, c_EOF, c_minus]) ! 4094 = c_less"
    "(replicate 4094 0x20 @ [c_less, c_EOF, c_minus]) ! 4095 = c_EOF"
    "\<forall>i<4094. (replicate 4094 0x20 @ [c_less, c_EOF, c_minus]) ! i = (0x20 :: byte)"
    by (simp_all add: nth_append)
  from lexer_less_at_block_end [OF F] lexer_less_before_block_end [OF G]
  show ?thesis by (intro conjI)
qed

section \<open>Block comments\<close>

text \<open>
  The pass of the scanner that starts at \<^verbatim>\<open>(*\<close>: \<^verbatim>\<open>remove_comments\<close> enters its block
  loop with the parenthesis as current character and reads the asterisk; from there the
  loop runs with the asterisk as current character.
\<close>

lemma lexer_iteration_opener:
  assumes "wf_buffer buf" "pending buf = c_lparen # c_star # rest"
  shows "\<exists>b2. wf_buffer b2 \<and> pending b2 = rest \<and> current_line b2 = current_line buf
            \<and> lexer_iteration buf out =
                (case remove_comments_block_loop c_star b2 of
                   None \<Rightarrow> None
                 | Some b3 \<Rightarrow> Some (Inr (Continue (snd (next_char b3)) out)))"
proof -
  from assms obtain b1 where b1: "next_char buf = (c_lparen, b1)" "wf_buffer b1"
    "pending b1 = c_star # rest" "current_char_lookup b1 = (c_lparen, b1)"
    "current_line b1 = current_line buf"
    by (auto elim: next_char_Cons)
  from b1(2,3) have la: "next_char_lookup b1 = (c_star, b1)"
    by (simp add: next_char_lookup_Cons)
  from b1(2,3) obtain b2 where b2: "next_char b1 = (c_star, b2)" "wf_buffer b2"
    "pending b2 = rest" "current_line b2 = current_line b1"
    by (auto elim: next_char_Cons)
  have loop: "remove_comments_block_loop c_lparen b1 = remove_comments_block_loop c_star b2"
    using b2(1) by (subst remove_comments_block_loop.simps) simp
  have "remove_comments b1 =
      (case remove_comments_block_loop c_star b2 of
         None \<Rightarrow> None
       | Some b3 \<Rightarrow> Some (True, snd (next_char b3)))"
    using b1(4) la loop by (simp add: remove_comments_def)
  then have "lexer_iteration buf out =
      (case remove_comments_block_loop c_star b2 of
         None \<Rightarrow> None
       | Some b3 \<Rightarrow> Some (Inr (Continue (snd (next_char b3)) out)))"
    using b1(1) by (simp add: lexer_iteration_def iswhitespace_def split: option.splits)
  with b2 b1(5) show ?thesis by auto
qed

text \<open>
  Claim C10. The three characters \<^verbatim>\<open>(*)\<close> are one complete block comment: the asterisk
  of the opener passes the test for the closer, the parenthesis after it is consumed as
  the end of the comment, and the scanner goes on behind it, on the same line, with no
  token printed and no error.
\<close>

theorem opener_asterisk_closes:
  assumes "wf_buffer buf" "pending buf = c_lparen # c_star # c_rparen # rest"
  shows "\<exists>b. lexer_iteration buf out = Some (Inr (Continue b out)) \<and> wf_buffer b
           \<and> pending b = rest \<and> current_line b = current_line buf"
proof -
  from lexer_iteration_opener [OF assms, of out]
  obtain b2 where b2: "wf_buffer b2" "pending b2 = c_rparen # rest"
    "current_line b2 = current_line buf"
    "lexer_iteration buf out =
       (case remove_comments_block_loop c_star b2 of
          None \<Rightarrow> None
        | Some b3 \<Rightarrow> Some (Inr (Continue (snd (next_char b3)) out)))"
    by blast
  from b2(1,2) have "next_char_lookup b2 = (c_rparen, b2)"
    by (simp add: next_char_lookup_Cons)
  then have loop: "remove_comments_block_loop c_star b2 = Some b2"
    by (subst remove_comments_block_loop.simps) simp
  from b2(1,2) obtain b where b: "next_char b2 = (c_rparen, b)" "wf_buffer b"
    "pending b = rest" "current_line b = current_line b2"
    by (auto elim: next_char_Cons)
  from b2(4) loop b(1) have "lexer_iteration buf out = Some (Inr (Continue b out))"
    by simp
  with b b2(3) show ?thesis by auto
qed

theorem opener_asterisk_closes_witness:
  "\<exists>b. lexer_iteration (init_buffer (cstr ''(*) x'')) [] = Some (Inr (Continue b []))
       \<and> wf_buffer b \<and> pending b = cstr '' x'' \<and> current_line b = 1"
  using opener_asterisk_closes [of "init_buffer (cstr ''(*) x'')" "cstr '' x''" "[]"]
  by (simp add: wf_init_buffer pending_init_buffer line_init_buffer cstr_def)

text \<open>
  A block comment that is never closed. When no asterisk from the one of the opener on
  is directly followed by \<open>)\<close>, and no byte \<open>0xFF\<close> follows the opener, the loop runs
  to the end of the input, and the scanner ends with the tokens it had, without an error.
\<close>

lemma remove_comments_block_loop_unterminated:
  assumes "wf_buffer buf" "pending buf = cs" "c_EOF \<notin> set cs" "cur \<noteq> c_EOF"
    "\<not> has_closer (cur # cs)"
  shows "\<exists>b. remove_comments_block_loop cur buf = Some b \<and> wf_buffer b \<and> pending b = []"
  using assms
proof (induction cs arbitrary: cur buf)
  case Nil
  then obtain b where b: "next_char buf = (c_EOF, b)" "wf_buffer b" "pending b = []"
    by (auto elim: next_char_Nil)
  from Nil have la: "next_char_lookup buf = (c_EOF, buf)"
    by (simp add: next_char_lookup_Nil)
  have e: "remove_comments_block_loop c_EOF b = Some b"
    by (subst remove_comments_block_loop.simps) simp
  have "remove_comments_block_loop cur buf = Some b"
    using Nil.prems(4) la b(1) e by (subst remove_comments_block_loop.simps) simp
  with b show ?case by blast
next
  case (Cons c cs)
  then have c: "c \<noteq> c_EOF" "c_EOF \<notin> set cs" and nc: "\<not> has_closer (c # cs)"
    and st: "cur = c_star \<longrightarrow> c \<noteq> c_rparen"
    by auto
  from Cons.prems(1,2) obtain b where b: "next_char buf = (c, b)" "wf_buffer b"
    "pending b = cs"
    by (auto elim: next_char_Cons)
  from Cons.prems(1,2) c(1) have la: "next_char_lookup buf = (c, buf)"
    by (simp add: next_char_lookup_Cons)
  have "remove_comments_block_loop cur buf = remove_comments_block_loop c b"
    using Cons.prems(4) st la b(1) by (subst remove_comments_block_loop.simps) simp
  with Cons.IH [OF b(2,3) c(2,1) nc] show ?case by simp
qed

lemma unterminated_block_comment:
  assumes "wf_buffer buf" "pending buf = c_lparen # c_star # rest" "c_EOF \<notin> set rest"
    "\<not> has_closer (c_star # rest)"
  shows "lexer_loop buf out = Some (Inr out)"
proof -
  from lexer_iteration_opener [OF assms(1,2), of out]
  obtain b2 where b2: "wf_buffer b2" "pending b2 = rest"
    "lexer_iteration buf out =
       (case remove_comments_block_loop c_star b2 of
          None \<Rightarrow> None
        | Some b3 \<Rightarrow> Some (Inr (Continue (snd (next_char b3)) out)))"
    by blast
  from remove_comments_block_loop_unterminated [OF b2(1,2) assms(3) _ assms(4)]
  obtain b3 where b3: "remove_comments_block_loop c_star b2 = Some b3" "wf_buffer b3"
    "pending b3 = []"
    by auto
  from b3(2,3) obtain b4 where b4: "next_char b3 = (c_EOF, b4)" "wf_buffer b4"
    "pending b4 = []"
    by (auto elim: next_char_Nil)
  from b2(3) b3(1) b4(1) have "lexer_iteration buf out = Some (Inr (Continue b4 out))"
    by simp
  then have "lexer_loop buf out = lexer_loop b4 out"
    by (rule lexer_loop_continue)
  with lexer_loop_end [OF b4(2,3)] show ?thesis by simp
qed

lemma unterminated_block_comment_file:
  assumes "c_EOF \<notin> set rest" "\<not> has_closer (c_star # rest)"
  shows "lexer (c_lparen # c_star # rest) = Some (Inr [])"
    "main_status (c_lparen # c_star # rest) = Some 0"
  using unterminated_block_comment [OF wf_init_buffer pending_init_buffer assms, of "[]"]
  by (simp_all add: lexer_def main_status_def)

text \<open>
  Claim C7 (after an opener \<^verbatim>\<open>(*\<close> that no closer follows, the rest of the input is
  consumed as comment and the scan ends without an error and without a token), at a
  comment that is never closed and holds the byte \<open>0xFF\<close>: the byte read as a
  \<^verbatim>\<open>char\<close> equals \<^verbatim>\<open>EOF\<close>, the loop of the comment ends there, one more byte is
  skipped, and the scanner prints a token for the rest of the comment text.
\<close>

theorem unterminated_block_comment_0xFF:
  "\<not> has_closer (cstr ''*'' @ c_EOF # cstr '' x'')
   \<and> lexer (cstr ''(*'' @ c_EOF # cstr '' x'')
       = Some (Inr [Token 1 ''identifier'' (Some (cstr ''x''))])"
  by (simp add: scanner_eval)

end
